theory Spec2Isabelle
  imports Main "HOL-Library.AList"
begin

section \<open>JavaScript strings\<close>

text \<open>
  A JavaScript string is a sequence of UTF-16 code units; \<open>length\<close>, indexing, \<open>slice\<close> and
  \<open>indexOf\<close> all count code units. A code unit is modelled by its number, so that
  \<open>''\<dots>''\<close> literals of the source are written \<open>js ''\<dots>''\<close>. No operation of the source
  computes with a code unit, it only compares them, so the bound \<open>< 65536\<close> is never needed.
\<close>

type_synonym jsstring = "nat list"

definition js :: "string \<Rightarrow> jsstring" where
  "js s = map of_char s"

text \<open>The character classes of the regular expressions used in the source.\<close>

definition is_ws :: "nat \<Rightarrow> bool" where
  \<comment> \<open>\<open>\s\<close>: tab, LF, VT, FF, CR, space, NBSP, U+1680, U+2000..U+200A, U+2028, U+2029,
      U+202F, U+205F, U+3000, U+FEFF\<close>
  "is_ws c \<longleftrightarrow>
     c \<in> set [9, 10, 11, 12, 13, 32, 160, 5760, 8232, 8233, 8239, 8287, 12288, 65279]
     \<or> (8192 \<le> c \<and> c \<le> 8202)"

definition is_alnum :: "nat \<Rightarrow> bool" where
  \<comment> \<open>\<open>[a-zA-Z0-9]\<close>\<close>
  "is_alnum c \<longleftrightarrow> (97 \<le> c \<and> c \<le> 122) \<or> (65 \<le> c \<and> c \<le> 90) \<or> (48 \<le> c \<and> c \<le> 57)"

definition is_punct :: "nat \<Rightarrow> bool" where
  \<comment> \<open>the class \<open>[.,;:!?()[\]{}<>$"'\-]\<close>; 34 is the double quote, 39 the apostrophe\<close>
  "is_punct c \<longleftrightarrow> c \<in> set (js ''.,;:!?()[]{}<>$-'') \<or> c = 34 \<or> c = 39"

section \<open>Parsed values\<close>

text \<open>
  The XML parser hands the editor plain JavaScript values: strings, numbers, arrays and
  objects (keys in insertion order). \<open>undefined\<close> is \<open>None\<close> of \<open>json option\<close>. Numbers
  are modelled by the integers.
\<close>

datatype error = TypeError

datatype json =
    JNull
  | JBool bool
  | JNum int
  | JStr jsstring
  | JArr "json list"
  | JObj "(string \<times> json) list"

type_synonym props = "(string \<times> json) list"

abbreviation W_RPR :: string where "W_RPR \<equiv> ''w:rPr''"
abbreviation W_T :: string where "W_T \<equiv> ''w:t''"
abbreviation W_COLOR :: string where "W_COLOR \<equiv> ''w:color''"
abbreviation W_B :: string where "W_B \<equiv> ''w:b''"
abbreviation W_I :: string where "W_I \<equiv> ''w:i''"
abbreviation W_U :: string where "W_U \<equiv> ''w:u''"
abbreviation W_VAL :: string where "W_VAL \<equiv> ''w:val''"

text \<open>Truthiness, as \<open>!x\<close>, \<open>x && \<dots>\<close> and \<open>x ? \<dots> : \<dots>\<close> test it.\<close>

fun truthy :: "json option \<Rightarrow> bool" where
  "truthy None = False"
| "truthy (Some JNull) = False"
| "truthy (Some (JBool b)) = b"
| "truthy (Some (JNum n)) = (n \<noteq> 0)"
| "truthy (Some (JStr s)) = (s \<noteq> [])"
| "truthy (Some (JArr xs)) = True"
| "truthy (Some (JObj kvs)) = True"

text \<open>
  A property read \<open>x[k]\<close> throws on \<open>null\<close> and \<open>undefined\<close>; \<open>x?.[k]\<close> gives \<open>undefined\<close>
  there. The keys the source reads are element names (\<open>w:b\<close>, \<open>w:color\<close>, \<open>w:val\<close>,
  \<open>w:tab\<close>, \<open>w:br\<close>), never \<open>length\<close> or an index, so only an object can hold them.
\<close>

fun read_key :: "json \<Rightarrow> string \<Rightarrow> json option" where
  "read_key (JObj kvs) k = map_of kvs k"
| "read_key _ k = None"

fun member :: "json option \<Rightarrow> string \<Rightarrow> error + json option" where
  "member None k = Inl TypeError"
| "member (Some JNull) k = Inl TypeError"
| "member (Some x) k = Inr (read_key x k)"

fun opt_member :: "json option \<Rightarrow> string \<Rightarrow> json option" where
  "opt_member None k = None"
| "opt_member (Some JNull) k = None"
| "opt_member (Some x) k = read_key x k"

text \<open>
  \<open>RegExp.prototype.test\<close> converts its argument with \<open>String(\<dots>)\<close>: an array prints its
  elements joined by commas (\<open>null\<close> as the empty string), an object prints
  \<open>[object Object]\<close>, an integer prints in decimal (below \<open>10^21\<close> in magnitude, where
  JavaScript switches to the exponent form).
\<close>

fun digits10 :: "nat \<Rightarrow> jsstring" where
  "digits10 n = (if n < 10 then [48 + n] else digits10 (n div 10) @ [48 + n mod 10])"

declare digits10.simps [simp del]

definition num_to_string :: "int \<Rightarrow> jsstring" where
  "num_to_string n = (if n < 0 then 45 # digits10 (nat (- n)) else digits10 (nat n))"

fun join_comma :: "jsstring list \<Rightarrow> jsstring" where
  "join_comma [] = []"
| "join_comma [x] = x"
| "join_comma (x # y # ys) = x @ [44] @ join_comma (y # ys)"

primrec to_string :: "json \<Rightarrow> jsstring" where
  "to_string JNull = js ''null''"
| "to_string (JBool b) = (if b then js ''true'' else js ''false'')"
| "to_string (JNum n) = num_to_string n"
| "to_string (JStr s) = s"
| "to_string (JArr xs) =
     join_comma (map2 (\<lambda>x s. if x = JNull then [] else s) xs (map to_string xs))"
| "to_string (JObj kvs) = js ''[object Object]''"

section \<open>Style Classifier\<close>

text \<open>
  The pattern \<open>/^(FF0000|C00000|E00000)$/i\<close>: the whole string is one of the three
  alternatives; under the \<open>i\<close> flag a pattern letter matches itself and its lower-case
  form, a digit only itself.
\<close>

definition ci_char :: "nat \<Rightarrow> nat \<Rightarrow> bool" where
  "ci_char pc c \<longleftrightarrow> c = pc \<or> (65 \<le> pc \<and> pc \<le> 90 \<and> c = pc + 32)"

definition red_regex_test :: "jsstring \<Rightarrow> bool" where
  "red_regex_test s \<longleftrightarrow>
     list_all2 ci_char (js ''FF0000'') s
     \<or> list_all2 ci_char (js ''C00000'') s
     \<or> list_all2 ci_char (js ''E00000'') s"

text \<open>
  \<^verbatim>\<open>
  function isBoldRed(rPr) {
    if (!rPr) return false;
    const hasBold = !!rPr[W.B];
    const color = rPr[W.COLOR]?.[W.VAL];
    const redish = color && /^(FF0000|C00000|E00000)$/i.test(color);
    return !!hasBold && !!redish;
  }\<close>
  A thrown \<open>TypeError\<close> is the result \<open>Inl TypeError\<close>.
\<close>

definition redish :: "json option \<Rightarrow> bool" where
  \<comment> \<open>\<open>!!(color && /\<dots>/i.test(color))\<close>\<close>
  "redish color =
     (case color of None \<Rightarrow> False
      | Some c \<Rightarrow> truthy (Some c) \<and> red_regex_test (to_string c))"

definition isBoldRed :: "json option \<Rightarrow> error + bool" where
  "isBoldRed rPr =
     (if \<not> truthy rPr then Inr False
      else case member rPr W_B of
             Inl e \<Rightarrow> Inl e
           | Inr hasBold \<Rightarrow>
               (case member rPr W_COLOR of
                  Inl e \<Rightarrow> Inl e
                | Inr col \<Rightarrow> Inr (truthy hasBold \<and> redish (opt_member col W_VAL))))"

text \<open>
  The other revision of the file tests the colour only:
  \<^verbatim>\<open>
  function isRed(rPr) {
    if (!rPr) return false;
    const color = rPr[W.COLOR]?.[W.VAL];
    const redish = color && /^(FF0000|C00000|E00000)$/i.test(color);
    return !!redish;
  }\<close>
\<close>

definition isRed :: "json option \<Rightarrow> error + bool" where
  "isRed rPr =
     (if \<not> truthy rPr then Inr False
      else case member rPr W_COLOR of
             Inl e \<Rightarrow> Inl e
           | Inr col \<Rightarrow> Inr (redish (opt_member col W_VAL)))"

text \<open>
  The repository holds two revisions of \<open>openxml-edit.js\<close>. Where they differ, a
  definition takes the revision: \<open>Rev0\<close> classifies with \<open>isRed\<close>, always joins runs with
  a space and skips position-map entries that resolve to nothing; \<open>Rev1\<close> classifies with
  \<open>isBoldRed\<close>, joins runs selectively and reads such entries unguarded.
\<close>

datatype revision = Rev0 | Rev1

definition classify :: "revision \<Rightarrow> json option \<Rightarrow> error + bool" where
  "classify rv rPr = (case rv of Rev0 \<Rightarrow> isRed rPr | Rev1 \<Rightarrow> isBoldRed rPr)"

lemma member_truthy: "truthy x \<Longrightarrow> member x k = Inr (opt_member x k)"
  by (cases "(x, k)" rule: member.cases) auto

lemma classify_total: "\<exists>b. classify rv x = Inr b"
  by (cases rv) (auto simp: classify_def isRed_def isBoldRed_def member_truthy)

subsection \<open>Overlays\<close>

text \<open>
  \<^verbatim>\<open>
  function overlayExact(rPr /*orig*/, wasBoldRed) {
    const out = rPr || {};
    out[W.I] = {};                 // italic
    out[W.U] = { [W.VAL]: "single" }; // underline
    out[W.COLOR] = { [W.VAL]: "FF0000" }; // red
    return out;
  }
  function overlayBrown(rPr /*orig*/) {
    const out = rPr || {};
    out[W.U] = { [W.VAL]: "single" }; // underline
    out[W.COLOR] = { [W.VAL]: "7B3F00" }; // brown
    return out;
  }\<close>
  An assignment \<open>out[k] = v\<close> replaces the value of an existing key in place and appends
  a new key: \<open>AList.update\<close>. The assignments of each overlay, on the mapping itself:
\<close>

definition exact_props :: "props \<Rightarrow> props" where
  "exact_props m =
     AList.update W_COLOR (JObj [(W_VAL, JStr (js ''FF0000''))])
       (AList.update W_U (JObj [(W_VAL, JStr (js ''single''))])
         (AList.update W_I (JObj []) m))"

definition brown_props :: "props \<Rightarrow> props" where
  "brown_props m =
     AList.update W_COLOR (JObj [(W_VAL, JStr (js ''7B3F00''))])
       (AList.update W_U (JObj [(W_VAL, JStr (js ''single''))]) m)"

text \<open>
  The functions receive a reference. The store maps an address (an index) to the mapping
  held there; \<open>rPr\<close> is an address or \<open>None\<close> for \<open>null\<close>/\<open>undefined\<close>. \<open>rPr || {}\<close> is the
  argument's own address when there is one and a freshly allocated empty object otherwise;
  the assignments write to that address, and the address is returned.
\<close>

type_synonym store = "props list"

definition overlayExact :: "store \<Rightarrow> nat option \<Rightarrow> bool \<Rightarrow> nat \<times> store" where
  "overlayExact h rPr wasBoldRed =
     (let (out, h0) = (case rPr of Some a \<Rightarrow> (a, h) | None \<Rightarrow> (length h, h @ [[]]))
      in (out, h0[out := exact_props (h0 ! out)]))"

definition overlayBrown :: "store \<Rightarrow> nat option \<Rightarrow> nat \<times> store" where
  "overlayBrown h rPr =
     (let (out, h0) = (case rPr of Some a \<Rightarrow> (a, h) | None \<Rightarrow> (length h, h @ [[]]))
      in (out, h0[out := brown_props (h0 ! out)]))"

section \<open>Document model\<close>

text \<open>
  A run is an object with an optional \<open>w:rPr\<close> (its properties, a mapping), an optional
  \<open>w:t\<close> (its text) and any other children (\<open>w:tab\<close>, \<open>w:br\<close>, \<dots>), kept by key.

  The parser (\<open>fast-xml-parser\<close> with \<open>ignoreAttributes: false\<close> and its default
  \<open>parseTagValue\<close>) gives the text of an element as a string, or, when the text reads as a
  number or as \<open>true\<close>/\<open>false\<close>, as that number or boolean (numbers are modelled by the
  integers). \<open>w:t\<close> is this value itself, or, when the element has attributes such as
  \<open>xml:space\<close>, an object that holds the value under \<open>#text\<close>; \<open>TObj None\<close> is an object
  without \<open>#text\<close>.
\<close>

datatype payload = PStr jsstring | PNum int | PBool bool

datatype tnode =
    TStr jsstring
  | TNum int
  | TBool bool
  | TObj "payload option" "(string \<times> jsstring) list"

record run =
  w_rPr :: "props option"
  w_t :: "tnode option"
  children :: "(string \<times> json) list"

text \<open>
  \<open>typeof t === "string" ? t : (t?.["#text"] ?? "")\<close>, for a \<open>t\<close> that is not \<open>null\<close>; a
  number or a boolean has no property \<open>#text\<close>:
\<close>

fun text_of :: "tnode \<Rightarrow> payload" where
  "text_of (TStr s) = PStr s"
| "text_of (TNum n) = PStr []"
| "text_of (TBool b) = PStr []"
| "text_of (TObj None attrs) = PStr []"
| "text_of (TObj (Some v) attrs) = v"

text \<open>
  What the source does with the text: it reads \<open>text.length\<close> (\<open>undefined\<close> for a number or
  a boolean, so that \<open>text.length > 0\<close> and \<open>i < text.length\<close> are false: no iteration), and
  it appends the text to a string (\<open>full += text\<close>), which converts it.
\<close>

fun text_length :: "payload \<Rightarrow> nat" where
  "text_length (PStr s) = length s"
| "text_length (PNum n) = 0"
| "text_length (PBool b) = 0"

fun text_string :: "payload \<Rightarrow> jsstring" where
  "text_string (PStr s) = s"
| "text_string (PNum n) = num_to_string n"
| "text_string (PBool b) = (if b then js ''true'' else js ''false'')"

text \<open>
  A paragraph holds its runs under \<open>w:r\<close>: an array when it has several runs, the run itself
  when it has one, nothing when it has none. The source normalises this:
  \<^verbatim>\<open>
  const runs = Array.isArray(p[W.R]) ? p[W.R] : (p[W.R] ? [p[W.R]] : []);
  plist.push(runs);\<close>
  For an array, \<open>runs\<close> is the array of the parsed tree itself; otherwise it is a new array,
  which the tree does not contain.
\<close>

datatype para = RunArray "run list" | OneRun run | NoRuns

fun runs_of :: "para \<Rightarrow> run list" where
  "runs_of (RunArray rs) = rs"
| "runs_of (OneRun r) = [r]"
| "runs_of NoRuns = []"

text \<open>
  An entry of the position map is \<open>{p, r, o}\<close>: paragraph index, run index, and the offset in
  the run's text, or \<open>-1\<close> (a tab or break) or \<open>-2\<close> (a space joining two runs) for a
  synthetic character.
\<close>

record pos =
  pos_p :: nat
  pos_r :: nat
  pos_o :: int

text \<open>
  The structure \<open>indexRuns\<close> returns: \<open>doc\<close> is the parsed tree (its paragraphs), which is
  what is serialised in the end; \<open>plist\<close> holds the run arrays, \<open>plist[p]\<close> being the array
  inside \<open>doc\<close> exactly when paragraph \<open>p\<close> of \<open>doc\<close> is a \<open>RunArray\<close>.
\<close>

record struct =
  doc :: "para list"
  plist :: "run list list"
  posmap :: "pos list"
  full :: jsstring

text \<open>\<open>xs[i]\<close> is \<open>undefined\<close> outside the array.\<close>

definition at_index :: "'a list \<Rightarrow> nat \<Rightarrow> 'a option" where
  "at_index xs i = (if i < length xs then Some (xs ! i) else None)"

definition at_int :: "'a list \<Rightarrow> int \<Rightarrow> 'a option" where
  "at_int xs i = (if 0 \<le> i \<and> i < int (length xs) then Some (xs ! nat i) else None)"

text \<open>An entry resolves: its paragraph and run exist and its offset is inside the run's text.\<close>

definition resolves :: "run list list \<Rightarrow> pos \<Rightarrow> bool" where
  "resolves pl e \<longleftrightarrow>
     (case at_index pl (pos_p e) of
        None \<Rightarrow> False
      | Some pRuns \<Rightarrow>
          (case at_index pRuns (pos_r e) of
             None \<Rightarrow> False
           | Some rNode \<Rightarrow>
               (case w_t rNode of
                  None \<Rightarrow> False
                | Some t \<Rightarrow> pos_o e < int (text_length (text_of t)))))"

section \<open>Flattener\<close>

text \<open>
  \<^verbatim>\<open>
  const hasTab = Array.isArray(r["w:tab"]) ? r["w:tab"].length : (r["w:tab"] ? 1 : 0);
  const hasBr = Array.isArray(r["w:br"]) ? r["w:br"].length : (r["w:br"] ? 1 : 0);\<close>
\<close>

fun marker_count :: "json option \<Rightarrow> nat" where
  "marker_count (Some (JArr xs)) = length xs"
| "marker_count x = (if truthy x then 1 else 0)"

text \<open>
  The join policy. \<open>Rev0\<close> always inserts a space between a non-empty flattened text and a
  non-empty run text. \<open>Rev1\<close>:
  \<^verbatim>\<open>
  const shouldAddSpace = !/\s/.test(lastChar) && !/\s/.test(firstChar) &&
    ((/[a-zA-Z0-9]/.test(lastChar) && /[a-zA-Z0-9]/.test(firstChar)) ||
     (/[a-zA-Z0-9]/.test(lastChar) && !/[.,;:!?()[\]{}<>$"'\-]/.test(firstChar)));\<close>
\<close>

definition shouldAddSpace :: "revision \<Rightarrow> nat \<Rightarrow> nat \<Rightarrow> bool" where
  "shouldAddSpace rv lastChar firstChar =
     (case rv of
        Rev0 \<Rightarrow> True
      | Rev1 \<Rightarrow>
          \<not> is_ws lastChar \<and> \<not> is_ws firstChar
          \<and> ((is_alnum lastChar \<and> is_alnum firstChar)
               \<or> (is_alnum lastChar \<and> \<not> is_punct firstChar)))"

text \<open>
  The body of \<open>runs.forEach((r, rIdx) => \<dots>)\<close>, on the pair of \<open>map\<close> and \<open>full\<close> built so
  far: one synthetic entry and one space per tab or break, then (for a run with a \<open>w:t\<close>)
  the join space if the policy asks for one, then one entry per code unit of the text
  (\<open>text[0]\<close> is read only when \<open>text.length > 0\<close>, that is, from a string).
\<close>

definition index_run :: "revision \<Rightarrow> nat \<Rightarrow> nat \<Rightarrow> run \<Rightarrow> pos list \<times> jsstring \<Rightarrow> pos list \<times> jsstring" where
  "index_run rv pIdx rIdx r acc =
     (let (m, fl) = acc;
          wsCount = marker_count (map_of (children r) ''w:tab'')
                    + marker_count (map_of (children r) ''w:br'');
          m1 = m @ replicate wsCount \<lparr>pos_p = pIdx, pos_r = rIdx, pos_o = - 1\<rparr>;
          fl1 = fl @ replicate wsCount 32
      in case w_t r of
           None \<Rightarrow> (m1, fl1)
         | Some t \<Rightarrow>
             (let text = text_of t;
                  join = (fl1 \<noteq> [] \<and> 0 < text_length text
                          \<and> shouldAddSpace rv (last fl1) (hd (text_string text)));
                  m2 = (if join then m1 @ [\<lparr>pos_p = pIdx, pos_r = rIdx, pos_o = - 2\<rparr>] else m1);
                  fl2 = (if join then fl1 @ [32] else fl1)
              in (m2 @ map (\<lambda>i. \<lparr>pos_p = pIdx, pos_r = rIdx, pos_o = int i\<rparr>)
                         [0..<text_length text],
                  fl2 @ text_string text)))"

fun index_runs :: "revision \<Rightarrow> nat \<Rightarrow> nat \<Rightarrow> run list \<Rightarrow> pos list \<times> jsstring \<Rightarrow> pos list \<times> jsstring" where
  "index_runs rv pIdx rIdx [] acc = acc"
| "index_runs rv pIdx rIdx (r # rs) acc =
     index_runs rv pIdx (Suc rIdx) rs (index_run rv pIdx rIdx r acc)"

fun index_paragraphs :: "revision \<Rightarrow> nat \<Rightarrow> run list list \<Rightarrow> pos list \<times> jsstring \<Rightarrow> pos list \<times> jsstring" where
  "index_paragraphs rv pIdx [] acc = acc"
| "index_paragraphs rv pIdx (runs # ps) acc =
     index_paragraphs rv (Suc pIdx) ps (index_runs rv pIdx 0 runs acc)"

text \<open>
  \<open>indexRuns\<close>, from the parsed paragraphs on (parsing the XML is the parser's work).
\<close>

definition indexRuns :: "revision \<Rightarrow> para list \<Rightarrow> struct" where
  "indexRuns rv paragraphs =
     (let (m, fl) = index_paragraphs rv 0 (map runs_of paragraphs) ([], [])
      in \<lparr>doc = paragraphs, plist = map runs_of paragraphs, posmap = m, full = fl\<rparr>)"

section \<open>Locator\<close>

subsection \<open>\<open>String.prototype.indexOf\<close>\<close>

definition occurs_at :: "jsstring \<Rightarrow> jsstring \<Rightarrow> nat \<Rightarrow> bool" where
  "occurs_at text v k \<longleftrightarrow> k + length v \<le> length text \<and> take (length v) (drop k text) = v"

text \<open>
  \<open>text.indexOf(v, pos)\<close> clamps \<open>pos\<close> to the string and returns the least index from there
  on at which \<open>v\<close> occurs, or \<open>-1\<close>: \<open>None\<close> here.
\<close>

definition indexOf :: "jsstring \<Rightarrow> jsstring \<Rightarrow> nat \<Rightarrow> nat option" where
  "indexOf text v pos =
     List.find (occurs_at text v) [min pos (length text) ..< Suc (length text)]"

lemma find_upt_Some:
  "List.find P [a..<b] = Some j \<longleftrightarrow>
     a \<le> j \<and> j < b \<and> P j \<and> (\<forall>k. a \<le> k \<and> k < j \<longrightarrow> \<not> P k)"
proof
  assume "List.find P [a..<b] = Some j"
  then obtain i where i: "i < length [a..<b]" "P ([a..<b] ! i)" "j = [a..<b] ! i"
    and least: "\<forall>m<i. \<not> P ([a..<b] ! m)"
    unfolding find_Some_iff by blast
  from i have j: "j = a + i" "i < b - a" by simp_all
  have "\<not> P k" if "a \<le> k" "k < j" for k
  proof -
    from that j have ka: "k - a < i" by arith
    with least have "\<not> P ([a..<b] ! (k - a))" by blast
    moreover from ka j that have "a + (k - a) < b" by arith
    then have "[a..<b] ! (k - a) = a + (k - a)" by (rule nth_upt)
    ultimately show ?thesis using that by simp
  qed
  moreover from j have "j < b" by arith
  ultimately show "a \<le> j \<and> j < b \<and> P j \<and> (\<forall>k. a \<le> k \<and> k < j \<longrightarrow> \<not> P k)"
    using i j by simp
next
  assume r: "a \<le> j \<and> j < b \<and> P j \<and> (\<forall>k. a \<le> k \<and> k < j \<longrightarrow> \<not> P k)"
  then have ja: "a + (j - a) = j" "j - a < b - a" by arith+
  then have nth: "[a..<b] ! (j - a) = j" by simp
  have "\<forall>m<j - a. \<not> P ([a..<b] ! m)"
  proof (intro allI impI)
    fix m assume m: "m < j - a"
    with r have lt: "a + m < b" "a \<le> a + m" "a + m < j" by arith+
    from lt(1) have "[a..<b] ! m = a + m" by (rule nth_upt)
    moreover from r lt have "\<not> P (a + m)" by blast
    ultimately show "\<not> P ([a..<b] ! m)" by simp
  qed
  with r ja nth show "List.find P [a..<b] = Some j"
    unfolding find_Some_iff by (intro exI[of _ "j - a"]) simp
qed

lemma indexOf_Some:
  "indexOf text v pos = Some j \<Longrightarrow>
     min pos (length text) \<le> j \<and> occurs_at text v j
     \<and> (\<forall>k. min pos (length text) \<le> k \<and> k < j \<longrightarrow> \<not> occurs_at text v k)"
  unfolding indexOf_def find_upt_Some by blast

lemma indexOf_None:
  "indexOf text v pos = None \<longleftrightarrow> (\<forall>k. min pos (length text) \<le> k \<longrightarrow> \<not> occurs_at text v k)"
  unfolding indexOf_def find_None_iff
  by (auto simp: occurs_at_def)

subsection \<open>\<open>findAll\<close> and \<open>findAllOccurrences\<close>\<close>

text \<open>
  \<^verbatim>\<open>
  function findAll(text, value) {
    if (!value) return [];
    const hits = [];
    let i = 0;
    while (i < text.length) {
      const j = text.indexOf(value, i);
      if (j < 0) break;
      hits.push([j, j + value.length]);
      i = j + value.length;
    }
    return hits;
  }\<close>
  The loop is the recursion on \<open>i\<close>; the hits pushed from \<open>i\<close> on are the result. With an
  empty \<open>value\<close> the loop would not advance: the source never enters it then, and the
  guard is repeated in the loop function to make the recursion total.
\<close>

function findAll_loop :: "jsstring \<Rightarrow> jsstring \<Rightarrow> nat \<Rightarrow> (nat \<times> nat) list" where
  "findAll_loop text v i =
     (if v = [] then []
      else if i < length text then
        (case indexOf text v i of
           None \<Rightarrow> []
         | Some j \<Rightarrow> (j, j + length v) # findAll_loop text v (j + length v))
      else [])"
  by pat_completeness auto
termination
proof (relation "measure (\<lambda>(text, v, i). length text - i)")
  show "wf (measure (\<lambda>(text, v, i). length text - i))" by simp
next
  fix tx v :: jsstring and i j :: nat
  assume v: "v \<noteq> []" and i: "i < length tx" and j: "indexOf tx v i = Some j"
  from indexOf_Some[OF j] i have "i \<le> j" by simp
  with v i show "((tx, v, j + length v), (tx, v, i)) \<in> measure (\<lambda>(text, v, i). length text - i)"
    by (cases v) auto
qed

declare findAll_loop.simps [simp del]

definition findAll :: "jsstring \<Rightarrow> jsstring \<Rightarrow> (nat \<times> nat) list" where
  "findAll text v = (if v = [] then [] else findAll_loop text v 0)"

text \<open>\<open>findAllOccurrences\<close> of \<open>eval.js\<close> is the same loop, with \<open>found === -1\<close> for \<open>j < 0\<close>.\<close>

definition findAllOccurrences :: "jsstring \<Rightarrow> jsstring \<Rightarrow> (nat \<times> nat) list" where
  "findAllOccurrences text needle = (if needle = [] then [] else findAll_loop text needle 0)"

lemma findAll_loop_props:
  "v \<noteq> [] \<Longrightarrow>
   (\<forall>(s, e) \<in> set (findAll_loop tx v i). i \<le> s \<and> e = s + length v \<and> occurs_at tx v s)
   \<and> sorted_wrt (\<lambda>a b. snd a \<le> fst b) (findAll_loop tx v i)
   \<and> (\<forall>j. i \<le> j \<and> occurs_at tx v j \<longrightarrow>
          (\<exists>(s, e) \<in> set (findAll_loop tx v i). s \<le> j \<and> j < e))"
proof (induction tx v i rule: findAll_loop.induct)
  case (1 tx v i)
  show ?case
  proof (cases "i < length tx")
    case False
    then have "findAll_loop tx v i = []" by (subst findAll_loop.simps) simp
    moreover have "\<not> occurs_at tx v j" if "i \<le> j" for j
      using that False "1.prems" by (cases v) (auto simp: occurs_at_def)
    ultimately show ?thesis by simp
  next
    case True
    show ?thesis
    proof (cases "indexOf tx v i")
      case None
      then have "findAll_loop tx v i = []" using True by (subst findAll_loop.simps) simp
      moreover have "\<not> occurs_at tx v j" if "i \<le> j" for j
        using None that True by (simp add: indexOf_None)
      ultimately show ?thesis by simp
    next
      case (Some j0)
      let ?rest = "findAll_loop tx v (j0 + length v)"
      have eq: "findAll_loop tx v i = (j0, j0 + length v) # ?rest"
        using True Some "1.prems" by (subst findAll_loop.simps) simp
      from indexOf_Some[OF Some] True
      have ij: "i \<le> j0" and occ: "occurs_at tx v j0"
        and first: "\<And>k. i \<le> k \<Longrightarrow> k < j0 \<Longrightarrow> \<not> occurs_at tx v k"
        by auto
      have IH: "(\<forall>(s, e) \<in> set ?rest. j0 + length v \<le> s \<and> e = s + length v \<and> occurs_at tx v s)
         \<and> sorted_wrt (\<lambda>a b. snd a \<le> fst b) ?rest
         \<and> (\<forall>j. j0 + length v \<le> j \<and> occurs_at tx v j \<longrightarrow>
                (\<exists>(s, e) \<in> set ?rest. s \<le> j \<and> j < e))"
        using "1.IH"[OF "1.prems" True Some "1.prems"] .
      have A: "\<forall>(s, e) \<in> set (findAll_loop tx v i). i \<le> s \<and> e = s + length v \<and> occurs_at tx v s"
        unfolding eq using IH ij occ by auto
      have B: "sorted_wrt (\<lambda>a b. snd a \<le> fst b) (findAll_loop tx v i)"
        unfolding eq using IH by auto
      have C: "\<exists>(s, e) \<in> set (findAll_loop tx v i). s \<le> j \<and> j < e"
        if "i \<le> j" "occurs_at tx v j" for j
      proof (cases "j < j0 + length v")
        case True
        with first[of j] that have "j0 \<le> j" by (meson not_le)
        with True show ?thesis unfolding eq by auto
      next
        case False
        then have "j0 + length v \<le> j \<and> occurs_at tx v j" using that by simp
        with IH have "\<exists>(s, e) \<in> set ?rest. s \<le> j \<and> j < e" by blast
        then show ?thesis unfolding eq by auto
      qed
      show ?thesis
      proof (intro conjI allI impI)
        show "\<forall>(s, e) \<in> set (findAll_loop tx v i). i \<le> s \<and> e = s + length v \<and> occurs_at tx v s"
          by (rule A)
        show "sorted_wrt (\<lambda>a b. snd a \<le> fst b) (findAll_loop tx v i)" by (rule B)
        fix j assume "i \<le> j \<and> occurs_at tx v j"
        then show "\<exists>(s, e) \<in> set (findAll_loop tx v i). s \<le> j \<and> j < e"
          using C by blast
      qed
    qed
  qed
qed

subsection \<open>\<open>hasTokenBoundary\<close>\<close>

text \<open>
  \<^verbatim>\<open>
  export function hasTokenBoundary(full, start, end) {
    const left = start <= 0 ? " " : full[start - 1];
    const right = end >= full.length ? " " : full[end];
    const isBoundary = (c) => /\s|[.,;:!?()[\]{}<>$"'\-]|^$/.test(c);
    return isBoundary(left) && isBoundary(right);
  }\<close>
  \<open>full[i]\<close> is the one-unit string at \<open>i\<close>, or \<open>undefined\<close> outside the string. The
  pattern is not anchored: it matches a string that contains a whitespace or punctuation
  unit anywhere, and the empty string. \<open>test\<close> converts \<open>undefined\<close> to the string
  \<open>undefined\<close>.
\<close>

definition char_at :: "jsstring \<Rightarrow> int \<Rightarrow> jsstring option" where
  "char_at s i = (if 0 \<le> i \<and> i < int (length s) then Some [s ! nat i] else None)"

definition boundary_regex_test :: "jsstring \<Rightarrow> bool" where
  "boundary_regex_test s \<longleftrightarrow> list_ex (\<lambda>c. is_ws c \<or> is_punct c) s \<or> s = []"

definition isBoundary :: "jsstring option \<Rightarrow> bool" where
  "isBoundary c = boundary_regex_test (case c of None \<Rightarrow> js ''undefined'' | Some s \<Rightarrow> s)"

definition hasTokenBoundary :: "jsstring \<Rightarrow> int \<Rightarrow> int \<Rightarrow> bool" where
  "hasTokenBoundary fl start stop =
     (let left = (if start \<le> 0 then Some (js '' '') else char_at fl (start - 1));
          right = (if stop \<ge> int (length fl) then Some (js '' '') else char_at fl stop)
      in isBoundary left \<and> isBoundary right)"

text \<open>The boundary class of the specification: whitespace, or one of the listed characters.\<close>

definition boundary_class :: "nat \<Rightarrow> bool" where
  "boundary_class c \<longleftrightarrow> is_ws c \<or> is_punct c"

section \<open>Splicer\<close>

text \<open>
  \<open>s.slice(a, b)\<close>: a negative index counts from the end, both indices are clamped to the
  string, and the result is empty when the end is not after the start. \<open>s.slice(a)\<close> runs
  to the end of the string.
\<close>

definition slice_index :: "nat \<Rightarrow> int \<Rightarrow> nat" where
  "slice_index len a = (if a < 0 then nat (max (int len + a) 0) else min (nat a) len)"

definition js_slice :: "'a list \<Rightarrow> int \<Rightarrow> int \<Rightarrow> 'a list" where
  "js_slice s a b =
     (let from = slice_index (length s) a; to = slice_index (length s) b
      in take (to - from) (drop from s))"

definition js_slice_from :: "'a list \<Rightarrow> int \<Rightarrow> 'a list" where
  "js_slice_from s a = drop (slice_index (length s) a) s"

text \<open>
  \<^verbatim>\<open>
  const mkRun = (text, pr = null) => {
    const out = {};
    if (pr && Object.keys(pr).length) out[W.RPR] = pr;
    out[W.T] = { "#text": text, "xml:space": "preserve" };
    return out;
  };\<close>
\<close>

definition mkRun :: "jsstring \<Rightarrow> props \<Rightarrow> run" where
  "mkRun text pr =
     \<lparr>w_rPr = (if pr \<noteq> [] then Some pr else None),
      w_t = Some (TObj (Some (PStr text)) [(''xml:space'', js ''preserve'')]),
      children = []\<rparr>"

text \<open>
  The styler is called on a fresh copy of the run's properties (\<open>clone(baseRPr)\<close>), so
  whatever it does to its argument is seen only through the mapping it returns: it is a
  function from the properties and the classification to the styled properties.
\<close>

type_synonym styler = "props \<Rightarrow> bool \<Rightarrow> props"

text \<open>
  The replacement runs for one run, of which the range covers \<open>take\<close> code units from
  offset \<open>o\<close> on:
  \<^verbatim>\<open>
  const beforeText = txt.slice(0, pos.o);
  const midText = txt.slice(pos.o, pos.o + take);
  const afterText = txt.slice(pos.o + take);
  const baseRPr = clone(rNode[W.RPR] || {});
  const runsNew = [];
  if (beforeText) runsNew.push(mkRun(beforeText, baseRPr));
  const styledRPr = styler(clone(baseRPr), isBoldRed(baseRPr));
  runsNew.push(mkRun(midText, styledRPr));
  if (afterText) runsNew.push(mkRun(afterText, baseRPr));
  if (runsNew.length) {
    const extras = copyNonTextChildren(rNode);
    Object.assign(runsNew[0], extras);
  }\<close>
  \<open>copyNonTextChildren\<close> copies every key of the run but \<open>w:rPr\<close> and \<open>w:t\<close>: the
  \<open>children\<close>. A fresh run of \<open>mkRun\<close> has none, so assigning them gives it exactly those.
  The classifier is \<open>isRed\<close> in \<open>Rev0\<close>.
\<close>

definition baseRPr :: "run \<Rightarrow> props" where
  "baseRPr rNode = (case w_rPr rNode of None \<Rightarrow> [] | Some m \<Rightarrow> m)"

definition copyNonTextChildren :: "run \<Rightarrow> (string \<times> json) list" where
  "copyNonTextChildren origRun = children origRun"

text \<open>
  The text of a run, as it reads in the flattened text (empty for a run without \<open>w:t\<close>);
  its properties are \<open>baseRPr\<close>.
\<close>

definition run_text :: "run \<Rightarrow> jsstring" where
  "run_text x = (case w_t x of None \<Rightarrow> [] | Some t \<Rightarrow> text_string (text_of t))"

lemma run_text_mkRun [simp]: "run_text (mkRun s pr) = s"
  by (simp add: run_text_def mkRun_def)

lemma baseRPr_mkRun [simp]: "baseRPr (mkRun s pr) = pr"
  by (simp add: baseRPr_def mkRun_def)

lemma children_mkRun [simp]: "children (mkRun s pr) = []"
  by (simp add: mkRun_def)

lemma run_text_children [simp]: "run_text (x\<lparr>children := c\<rparr>) = run_text x"
  by (simp add: run_text_def)

lemma baseRPr_children [simp]: "baseRPr (x\<lparr>children := c\<rparr>) = baseRPr x"
  by (simp add: baseRPr_def)

definition split_run :: "styler \<Rightarrow> bool \<Rightarrow> run \<Rightarrow> jsstring \<Rightarrow> int \<Rightarrow> int \<Rightarrow> run list" where
  "split_run sty wasGT rNode txt off tk =
     (let beforeText = js_slice txt 0 off;
          midText = js_slice txt off (off + tk);
          afterText = js_slice_from txt (off + tk);
          styledRPr = sty (baseRPr rNode) wasGT;
          runsNew = (if beforeText \<noteq> [] then [mkRun beforeText (baseRPr rNode)] else [])
                    @ [mkRun midText styledRPr]
                    @ (if afterText \<noteq> [] then [mkRun afterText (baseRPr rNode)] else [])
      in case runsNew of
           [] \<Rightarrow> []
         | r0 # rest \<Rightarrow> r0\<lparr>children := copyNonTextChildren rNode\<rparr> # rest)"

text \<open>
  Re-indexing the paragraph after the splice:
  \<^verbatim>\<open>
  let paraStartIdx = null;
  for (let gi = 0; gi < map.length; gi++) {
    if (map[gi].p === pos.p) { paraStartIdx = gi; break; }
  }
  for (let gi = map.length - 1; gi >= 0; gi--) {
    if (map[gi].p === pos.p) map.splice(gi, 1);
  }
  for (let rIdx = 0; rIdx < newRuns.length; rIdx++) {
    const rt = newRuns[rIdx][W.T];
    if (rt == null) continue;
    const rtxt = typeof rt === "string" ? rt : (rt?.["#text"] ?? "");
    for (let off = 0; off < rtxt.length; off++) {
      map.splice(paraStartIdx + (map[paraStartIdx]?.p === pos.p ? 0 : 0), 0,
                 { p: pos.p, r: rIdx, o: off });
    }
  }\<close>
  \<open>map.splice(k, 0, e)\<close> inserts \<open>e\<close> before index \<open>k\<close> (at the end when \<open>k\<close> is beyond
  it). The index given is \<open>paraStartIdx + 0\<close> at every insertion; \<open>null + 0\<close> is \<open>0\<close>.
\<close>

definition insert_at :: "nat \<Rightarrow> 'a \<Rightarrow> 'a list \<Rightarrow> 'a list" where
  "insert_at k e xs = take k xs @ [e] @ drop k xs"

definition paraStartIdx :: "nat \<Rightarrow> pos list \<Rightarrow> nat" where
  "paraStartIdx p m =
     (if list_ex (\<lambda>e. pos_p e = p) m then length (takeWhile (\<lambda>e. pos_p e \<noteq> p) m) else 0)"

fun run_entries :: "nat \<Rightarrow> nat \<Rightarrow> run list \<Rightarrow> pos list" where
  "run_entries p rIdx [] = []"
| "run_entries p rIdx (rn # rs) =
     (case w_t rn of
        None \<Rightarrow> []
      | Some rt \<Rightarrow> map (\<lambda>off. \<lparr>pos_p = p, pos_r = rIdx, pos_o = int off\<rparr>)
                     [0..<text_length (text_of rt)])
     @ run_entries p (Suc rIdx) rs"

definition reindex :: "nat \<Rightarrow> run list \<Rightarrow> pos list \<Rightarrow> pos list" where
  "reindex p newRuns m =
     fold (\<lambda>e acc. insert_at (paraStartIdx p m) e acc)
          (run_entries p 0 newRuns)
          (filter (\<lambda>e. pos_p e \<noteq> p) m)"

text \<open>
  The splice and the re-indexing, for the run \<open>rNode\<close> found at \<open>pos\<close> in the paragraph
  \<open>pRuns\<close>:
  \<^verbatim>\<open>
  pRuns.splice(pos.r, 1, ...runsNew);\<close>
  \<open>pRuns\<close> is \<open>plist[pos.p]\<close>, changed in place. The tree sees the change when that array
  is its own, that is, when the paragraph of \<open>doc\<close> is a \<open>RunArray\<close>; the array made for a
  paragraph with one run or none is not in the tree, which then stays as it is.
\<close>

definition splice_doc :: "para list \<Rightarrow> nat \<Rightarrow> run list \<Rightarrow> para list" where
  "splice_doc d p newRuns =
     (case at_index d p of
        Some (RunArray rs) \<Rightarrow> d[p := RunArray newRuns]
      | _ \<Rightarrow> d)"

definition splice :: "styler \<Rightarrow> bool \<Rightarrow> struct \<Rightarrow> pos \<Rightarrow> run list \<Rightarrow> run \<Rightarrow> jsstring \<Rightarrow> int \<Rightarrow> struct" where
  "splice sty wasGT st ps pRuns rNode txt tk =
     (let runsNew = split_run sty wasGT rNode txt (pos_o ps) tk;
          newRuns = take (pos_r ps) pRuns @ runsNew @ drop (Suc (pos_r ps)) pRuns
      in st\<lparr>doc := splice_doc (doc st) (pos_p ps) newRuns,
            plist := (plist st)[pos_p ps := newRuns],
            posmap := reindex (pos_p ps) newRuns (posmap st)\<rparr>)"

text \<open>
  The loop of \<open>applyStyleToRange\<close>. A read that throws ends the call with \<open>Threw\<close> and the
  structure as mutated so far (the caller catches it); \<open>Rev0\<close> guards the reads of
  \<open>map[i]\<close>, \<open>plist[pos.p]\<close> and \<open>pRuns[pos.r]\<close> and skips the position instead. The loop
  variable need not advance when an entry is stale, so the recursion is on fuel: \<open>None\<close> is
  a loop that has not ended within it. When the text of the run is a number or a boolean,
  \<open>txt.slice\<close> is not a function: the call throws before it has changed anything.
\<close>

datatype outcome = Returned | Threw

fun applyStyleToRange_loop ::
  "nat \<Rightarrow> revision \<Rightarrow> styler \<Rightarrow> int \<Rightarrow> struct \<Rightarrow> int \<Rightarrow> (outcome \<times> struct) option" where
  "applyStyleToRange_loop 0 rv sty stop st i = None"
| "applyStyleToRange_loop (Suc fuel) rv sty stop st i =
     (if \<not> i < stop then Some (Returned, st)
      else case at_int (posmap st) i of
        None \<Rightarrow> (case rv of
                   Rev0 \<Rightarrow> applyStyleToRange_loop fuel rv sty stop st (i + 1)
                 | Rev1 \<Rightarrow> Some (Threw, st))
      | Some ps \<Rightarrow>
          (case at_index (plist st) (pos_p ps) of
             None \<Rightarrow> (case rv of
                        Rev0 \<Rightarrow> applyStyleToRange_loop fuel rv sty stop st (i + 1)
                      | Rev1 \<Rightarrow> Some (Threw, st))
           | Some pRuns \<Rightarrow>
               (case at_index pRuns (pos_r ps) of
                  None \<Rightarrow> (case rv of
                             Rev0 \<Rightarrow> applyStyleToRange_loop fuel rv sty stop st (i + 1)
                           | Rev1 \<Rightarrow> Some (Threw, st))
                | Some rNode \<Rightarrow>
                    if pos_o ps = - 1 \<or> pos_o ps = - 2
                    then applyStyleToRange_loop fuel rv sty stop st (i + 1)
                    else (case w_t rNode of
                       None \<Rightarrow> applyStyleToRange_loop fuel rv sty stop st (i + 1)
                     | Some tNode \<Rightarrow>
                         (case text_of tNode of
                            PStr txt \<Rightarrow>
                              (let remainingInRun = int (length txt) - pos_o ps;
                                   tk = min remainingInRun (stop - i)
                               in case classify rv (Some (JObj (baseRPr rNode))) of
                                    Inl e \<Rightarrow> Some (Threw, st)
                                  | Inr wasGT \<Rightarrow>
                                      applyStyleToRange_loop fuel rv sty stop
                                        (splice sty wasGT st ps pRuns rNode txt tk) (i + tk))
                          | _ \<Rightarrow> Some (Threw, st))))))"

text \<open>
  \<^verbatim>\<open>
  function applyStyleToRange(struct, start, end, styler) {
    const { paragraphs, plist, map } = struct;
    if (start < 0 || end <= start || end > map.length) return;
    const first = map[start];
    const last = map[end - 1];
    if (!first || !last) return;
    for (let i = start; i < end;) { \<dots> }
  }\<close>
\<close>

definition applyStyleToRange ::
  "nat \<Rightarrow> revision \<Rightarrow> struct \<Rightarrow> int \<Rightarrow> int \<Rightarrow> styler \<Rightarrow> (outcome \<times> struct) option" where
  "applyStyleToRange fuel rv st start stop sty =
     (if start < 0 \<or> stop \<le> start \<or> stop > int (length (posmap st)) then Some (Returned, st)
      else case (at_int (posmap st) start, at_int (posmap st) (stop - 1)) of
             (Some first, Some lst) \<Rightarrow> applyStyleToRange_loop fuel rv sty stop st start
           | _ \<Rightarrow> Some (Returned, st))"

section \<open>Orchestrator\<close>

text \<open>
  \<^verbatim>\<open>
  function spanWasBoldRed(struct, start, end) {
    const { map, paragraphs, plist } = struct;
    if (start < 0 || end <= start || end > map.length) return false;
    for (let k = start; k < end; k++) {
      const pos = map[k];
      const rNode = plist[pos.p][pos.r];
      const rPr = rNode[W.RPR];
      if (!isBoldRed(rPr)) return false; // every char of span must be bold red
    }
    return true;
  }\<close>
  \<open>Rev0\<close> skips (\<open>continue\<close>) an entry whose paragraph or run does not exist, and calls
  \<open>isRed\<close>. The loop runs over the entries \<open>map[start..end-1]\<close>, all inside the map.
\<close>

fun span_loop :: "revision \<Rightarrow> run list list \<Rightarrow> pos list \<Rightarrow> error + bool" where
  "span_loop rv pl [] = Inr True"
| "span_loop rv pl (ps # rest) =
     (case at_index pl (pos_p ps) of
        None \<Rightarrow> (case rv of Rev0 \<Rightarrow> span_loop rv pl rest | Rev1 \<Rightarrow> Inl TypeError)
      | Some pRuns \<Rightarrow>
          (case at_index pRuns (pos_r ps) of
             None \<Rightarrow> (case rv of Rev0 \<Rightarrow> span_loop rv pl rest | Rev1 \<Rightarrow> Inl TypeError)
           | Some rNode \<Rightarrow>
               (case classify rv (map_option JObj (w_rPr rNode)) of
                  Inl e \<Rightarrow> Inl e
                | Inr b \<Rightarrow> if \<not> b then Inr False else span_loop rv pl rest)))"

definition spanWasBoldRed :: "revision \<Rightarrow> struct \<Rightarrow> int \<Rightarrow> int \<Rightarrow> error + bool" where
  "spanWasBoldRed rv st start stop =
     (if start < 0 \<or> stop \<le> start \<or> stop > int (length (posmap st)) then Inr False
      else span_loop rv (plist st) (take (nat (stop - start)) (drop (nat start) (posmap st))))"

text \<open>
  The detection loop of \<open>annotateDocxWithDetections\<close> in \<open>Rev1\<close>. \<open>full\<close> is the text of the
  external extractor, \<open>xmlText\<close> the flattened text of \<open>indexRuns\<close>, taken once before the
  loop.
  \<^verbatim>\<open>
  const val = String(det.value || "");
  if (!val) continue;
  const ranges = findAll(full, val);
  if (!ranges.length) continue;
  for (let j = 0; j < ranges.length; j++) {
    try {
      const xmlRanges = findAll(xmlText, val);
      if (xmlRanges.length > j) {
        const [xmlS, xmlE] = xmlRanges[j];
        const wasBR = spanWasBoldRed(struct, xmlS, xmlE);
        applyStyleToRange(struct, xmlS, xmlE,
          (rPr) => (wasBR ? overlayExact(rPr, true) : overlayBrown(rPr)));
      }
    } catch (err) { console.warn(\<dots>); }
  }\<close>
  An exception ends the work on that range only; what was mutated before it stays. The
  styler's argument is a fresh copy, of which the overlay returns the updated mapping.
\<close>

definition annotate_range :: "nat \<Rightarrow> jsstring \<Rightarrow> jsstring \<Rightarrow> nat \<Rightarrow> struct \<Rightarrow> struct option" where
  "annotate_range fuel xmlText v j st =
     (let xmlRanges = findAll xmlText v
      in if length xmlRanges > j then
           (let (xmlS, xmlE) = xmlRanges ! j
            in case spanWasBoldRed Rev1 st (int xmlS) (int xmlE) of
                 Inl e \<Rightarrow> Some st
               | Inr wasBR \<Rightarrow>
                   map_option snd
                     (applyStyleToRange fuel Rev1 st (int xmlS) (int xmlE)
                        (\<lambda>rPr gt. if wasBR then exact_props rPr else brown_props rPr)))
         else Some st)"

fun annotate_ranges :: "nat \<Rightarrow> jsstring \<Rightarrow> jsstring \<Rightarrow> nat list \<Rightarrow> struct \<Rightarrow> struct option" where
  "annotate_ranges fuel xmlText v [] st = Some st"
| "annotate_ranges fuel xmlText v (j # rest) st =
     (case annotate_range fuel xmlText v j st of
        None \<Rightarrow> None
      | Some st' \<Rightarrow> annotate_ranges fuel xmlText v rest st')"

definition annotate_detection :: "nat \<Rightarrow> jsstring \<Rightarrow> jsstring \<Rightarrow> struct \<Rightarrow> jsstring \<Rightarrow> struct option" where
  "annotate_detection fuel fullText xmlText st v =
     (if v = [] then Some st
      else let ranges = findAll fullText v
           in if ranges = [] then Some st
              else annotate_ranges fuel xmlText v [0..<length ranges] st)"

record detection =
  det_type :: jsstring
  det_value :: jsstring

fun annotate_detections :: "nat \<Rightarrow> jsstring \<Rightarrow> jsstring \<Rightarrow> detection list \<Rightarrow> struct \<Rightarrow> struct option" where
  "annotate_detections fuel fullText xmlText [] st = Some st"
| "annotate_detections fuel fullText xmlText (d # ds) st =
     (case annotate_detection fuel fullText xmlText st (det_value d) of
        None \<Rightarrow> None
      | Some st' \<Rightarrow> annotate_detections fuel fullText xmlText ds st')"

text \<open>
  \<open>annotateDocxWithDetections\<close> (\<open>Rev1\<close>), between the parse and the rebuild of the XML.
  \<open>annotate_struct\<close> is the structure after all detections;
  \<^verbatim>\<open>
  const newDocXml = builder.build(struct.doc);\<close>
  serialises the tree of it, which is the result.
\<close>

definition annotate_struct ::
  "nat \<Rightarrow> jsstring \<Rightarrow> para list \<Rightarrow> detection list \<Rightarrow> struct option" where
  "annotate_struct fuel mammothText paragraphs detections =
     (let st = indexRuns Rev1 paragraphs
      in annotate_detections fuel mammothText (full st) detections st)"

definition annotateDocxWithDetections ::
  "nat \<Rightarrow> jsstring \<Rightarrow> para list \<Rightarrow> detection list \<Rightarrow> para list option" where
  "annotateDocxWithDetections fuel mammothText paragraphs detections =
     map_option doc (annotate_struct fuel mammothText paragraphs detections)"

text \<open>
  \<open>Rev0\<close> edits the XML string instead:
  \<^verbatim>\<open>
  for (const det of detections || []) {
    const val = String(det.value || "");
    if (!val) continue;
    const ranges = findAll(mammothText, val);
    if (!ranges.length) { continue; }
    for (const [mammothStart, mammothEnd] of ranges) {
      const textToFind = mammothText.substring(mammothStart, mammothEnd);
      docXml = modifyXmlDirectly(docXml, textToFind, val);
    }
  }\<close>
  \<open>modifyXmlDirectly\<close> rewrites the XML text with regular expressions; it is a parameter
  here, and the document is whatever type it works on.
\<close>

definition annotate_detection0 ::
  "('x \<Rightarrow> jsstring \<Rightarrow> jsstring \<Rightarrow> 'x) \<Rightarrow> jsstring \<Rightarrow> 'x \<Rightarrow> jsstring \<Rightarrow> 'x" where
  "annotate_detection0 modifyXmlDirectly mammothText docXml v =
     (if v = [] then docXml
      else let ranges = findAll mammothText v
           in if ranges = [] then docXml
              else fold (\<lambda>(mammothStart, mammothEnd) xml.
                           modifyXmlDirectly xml
                             (take (mammothEnd - mammothStart) (drop mammothStart mammothText)) v)
                        ranges docXml)"

definition annotateDocxWithDetections0 ::
  "('x \<Rightarrow> jsstring \<Rightarrow> jsstring \<Rightarrow> 'x) \<Rightarrow> jsstring \<Rightarrow> 'x \<Rightarrow> detection list \<Rightarrow> 'x" where
  "annotateDocxWithDetections0 modifyXmlDirectly mammothText docXml detections =
     fold (\<lambda>d xml. annotate_detection0 modifyXmlDirectly mammothText xml (det_value d))
          detections docXml"

section \<open>Facts about the Flattener\<close>

text \<open>
  Every real entry written for a run lies inside the text of that run. The map and the
  text grow together as long as the text of every run is a string (\<open>string_text\<close>); a number
  or a boolean is appended to the text with no entry.
\<close>

definition real_in :: "run \<Rightarrow> pos \<Rightarrow> bool" where
  "real_in x e \<longleftrightarrow>
     (0 \<le> pos_o e \<longrightarrow> (\<exists>t. w_t x = Some t \<and> pos_o e < int (text_length (text_of t))))"

definition string_text :: "run \<Rightarrow> bool" where
  "string_text x \<longleftrightarrow>
     (case w_t x of None \<Rightarrow> True
      | Some t \<Rightarrow> (case text_of t of PStr s \<Rightarrow> True | _ \<Rightarrow> False))"

lemma string_text_length:
  "string_text x \<Longrightarrow> w_t x = Some t \<Longrightarrow> length (text_string (text_of t)) = text_length (text_of t)"
  by (cases "text_of t") (simp_all add: string_text_def)

lemma index_run_length:
  "string_text x \<Longrightarrow> length m = length fl \<Longrightarrow>
   length (fst (index_run rv pIdx rIdx x (m, fl))) = length (snd (index_run rv pIdx rIdx x (m, fl)))"
  by (simp add: index_run_def Let_def string_text_length split: option.splits)

lemma index_run_entries:
  "e \<in> set (fst (index_run rv pIdx rIdx x (m, fl))) \<Longrightarrow>
   e \<in> set m \<or> (pos_p e = pIdx \<and> pos_r e = rIdx \<and> real_in x e)"
  by (auto simp: index_run_def Let_def real_in_def split: option.splits if_splits)

lemma index_runs_length:
  "list_all string_text rs \<Longrightarrow> length (fst acc) = length (snd acc) \<Longrightarrow>
   length (fst (index_runs rv pIdx rIdx rs acc)) = length (snd (index_runs rv pIdx rIdx rs acc))"
proof (induction rs arbitrary: rIdx acc)
  case Nil
  then show ?case by simp
next
  case (Cons x rs)
  obtain m fl where acc: "acc = (m, fl)" by (cases acc)
  with Cons.prems have "length m = length fl" by simp
  moreover from Cons.prems have x: "string_text x" and rs: "list_all string_text rs" by simp_all
  ultimately have "length (fst (index_run rv pIdx rIdx x (m, fl)))
      = length (snd (index_run rv pIdx rIdx x (m, fl)))"
    by (simp add: index_run_length)
  from Cons.IH[OF rs this] show ?case by (simp add: acc)
qed

lemma index_runs_entries:
  "e \<in> set (fst (index_runs rv pIdx rIdx rs acc)) \<Longrightarrow>
   e \<in> set (fst acc)
   \<or> (pos_p e = pIdx \<and> rIdx \<le> pos_r e \<and> pos_r e < rIdx + length rs
       \<and> real_in (rs ! (pos_r e - rIdx)) e)"
proof (induction rs arbitrary: rIdx acc)
  case Nil
  then show ?case by simp
next
  case (Cons x rs)
  obtain m fl where acc: "acc = (m, fl)" by (cases acc)
  from Cons.prems have "e \<in> set (fst (index_runs rv pIdx (Suc rIdx) rs (index_run rv pIdx rIdx x (m, fl))))"
    by (simp add: acc)
  from Cons.IH[OF this] show ?case
  proof
    assume "e \<in> set (fst (index_run rv pIdx rIdx x (m, fl)))"
    from index_run_entries[OF this] show ?thesis by (auto simp: acc)
  next
    assume r: "pos_p e = pIdx \<and> Suc rIdx \<le> pos_r e \<and> pos_r e < Suc rIdx + length rs
       \<and> real_in (rs ! (pos_r e - Suc rIdx)) e"
    then have "pos_r e - rIdx = Suc (pos_r e - Suc rIdx)" by arith
    then have "(x # rs) ! (pos_r e - rIdx) = rs ! (pos_r e - Suc rIdx)" by simp
    with r show ?thesis by auto
  qed
qed

lemma index_paragraphs_length:
  "list_all (list_all string_text) ps \<Longrightarrow> length (fst acc) = length (snd acc) \<Longrightarrow>
   length (fst (index_paragraphs rv pIdx ps acc)) = length (snd (index_paragraphs rv pIdx ps acc))"
proof (induction ps arbitrary: pIdx acc)
  case Nil
  then show ?case by simp
next
  case (Cons runs ps)
  from Cons.prems have r: "list_all string_text runs" and ps: "list_all (list_all string_text) ps"
    by simp_all
  from index_runs_length[OF r Cons.prems(2)] show ?case
    unfolding index_paragraphs.simps by (rule Cons.IH[OF ps])
qed

lemma index_paragraphs_entries:
  "e \<in> set (fst (index_paragraphs rv pIdx ps acc)) \<Longrightarrow>
   e \<in> set (fst acc)
   \<or> (pIdx \<le> pos_p e \<and> pos_p e < pIdx + length ps
       \<and> pos_r e < length (ps ! (pos_p e - pIdx))
       \<and> real_in (ps ! (pos_p e - pIdx) ! pos_r e) e)"
proof (induction ps arbitrary: pIdx acc)
  case Nil
  then show ?case by simp
next
  case (Cons runs ps)
  from Cons.prems have "e \<in> set (fst (index_paragraphs rv (Suc pIdx) ps (index_runs rv pIdx 0 runs acc)))"
    by simp
  from Cons.IH[OF this] show ?case
  proof
    assume "e \<in> set (fst (index_runs rv pIdx 0 runs acc))"
    from index_runs_entries[OF this] show ?thesis by auto
  next
    assume r: "Suc pIdx \<le> pos_p e \<and> pos_p e < Suc pIdx + length ps
       \<and> pos_r e < length (ps ! (pos_p e - Suc pIdx))
       \<and> real_in (ps ! (pos_p e - Suc pIdx) ! pos_r e) e"
    then have "pos_p e - pIdx = Suc (pos_p e - Suc pIdx)" by arith
    then have "(runs # ps) ! (pos_p e - pIdx) = ps ! (pos_p e - Suc pIdx)" by simp
    with r show ?thesis by auto
  qed
qed

lemma indexRuns_plist [simp]: "plist (indexRuns rv paragraphs) = map runs_of paragraphs"
  by (simp add: indexRuns_def split: prod.splits)

lemma indexRuns_doc [simp]: "doc (indexRuns rv paragraphs) = paragraphs"
  by (simp add: indexRuns_def split: prod.splits)

lemma indexRuns_lengths:
  assumes "list_all (list_all string_text) (map runs_of paragraphs)"
  shows "length (posmap (indexRuns rv paragraphs)) = length (full (indexRuns rv paragraphs))"
proof -
  obtain m fl where ip: "index_paragraphs rv 0 (map runs_of paragraphs) ([], []) = (m, fl)"
    by (cases "index_paragraphs rv 0 (map runs_of paragraphs) ([], [])")
  from index_paragraphs_length[OF assms, of "([], [])" rv 0] ip
  have "length m = length fl" by simp
  with ip show ?thesis by (simp add: indexRuns_def)
qed

lemma indexRuns_resolves:
  assumes e: "e \<in> set (posmap (indexRuns rv paragraphs))" and o: "0 \<le> pos_o e"
  shows "resolves (map runs_of paragraphs) e"
proof -
  let ?ps = "map runs_of paragraphs"
  from e have "e \<in> set (fst (index_paragraphs rv 0 ?ps ([], [])))"
    by (simp add: indexRuns_def split: prod.splits)
  from index_paragraphs_entries[OF this]
  have "pos_p e < length ?ps" "pos_r e < length (?ps ! pos_p e)"
    "real_in (?ps ! pos_p e ! pos_r e) e" by auto
  with o show ?thesis by (auto simp: resolves_def at_index_def real_in_def)
qed
section \<open>Facts about the Splicer\<close>

subsection \<open>The fragments and the loop step\<close>

lemma slices_concat:
  assumes "0 \<le> off" "0 \<le> tk"
  shows "js_slice s 0 off @ js_slice s off (off + tk) @ js_slice_from s (off + tk) = s"
proof -
  let ?a = "min (nat off) (length s)" and ?b = "min (nat (off + tk)) (length s)"
  from assms have ab: "?a \<le> ?b" by auto
  have 1: "js_slice s 0 off = take ?a s"
    using assms by (simp add: js_slice_def slice_index_def)
  have 2: "js_slice s off (off + tk) = take (?b - ?a) (drop ?a s)"
    using assms by (simp add: js_slice_def slice_index_def Let_def)
  have 3: "js_slice_from s (off + tk) = drop ?b s"
    using assms by (simp add: js_slice_from_def slice_index_def)
  have "take (?b - ?a) (drop ?a s) @ drop ?b s = drop ?a s"
  proof -
    have "drop ?b s = drop (?b - ?a) (drop ?a s)" using ab by simp
    then show ?thesis by (simp only: append_take_drop_id)
  qed
  then show ?thesis unfolding 1 2 3 by (simp only: append_take_drop_id)
qed

lemma split_run_texts:
  "map run_text (split_run sty gt rNode s off tk) =
     (if js_slice s 0 off \<noteq> [] then [js_slice s 0 off] else [])
     @ [js_slice s off (off + tk)]
     @ (if js_slice_from s (off + tk) \<noteq> [] then [js_slice_from s (off + tk)] else [])"
  by (simp add: split_run_def Let_def)

lemma split_run_props:
  "map baseRPr (split_run sty gt rNode s off tk) =
     (if js_slice s 0 off \<noteq> [] then [baseRPr rNode] else [])
     @ [sty (baseRPr rNode) gt]
     @ (if js_slice_from s (off + tk) \<noteq> [] then [baseRPr rNode] else [])"
  by (simp add: split_run_def Let_def)

lemma split_run_children:
  "map children (split_run sty gt rNode s off tk) =
     children rNode # replicate (length (split_run sty gt rNode s off tk) - 1) []"
  by (simp add: split_run_def Let_def copyNonTextChildren_def)

lemma split_run_concat:
  "0 \<le> off \<Longrightarrow> 0 \<le> tk \<Longrightarrow> concat (map run_text (split_run sty gt rNode s off tk)) = s"
  unfolding split_run_texts using slices_concat[of off tk s] by auto

lemma loop_splices_run:
  assumes "i < stop" "at_int (posmap st) i = Some ps"
    "at_index (plist st) (pos_p ps) = Some pRuns" "at_index pRuns (pos_r ps) = Some rNode"
    "0 \<le> pos_o ps" "w_t rNode = Some tNode" "text_of tNode = PStr s"
  shows "\<exists>wasGT. classify rv (Some (JObj (baseRPr rNode))) = Inr wasGT
     \<and> applyStyleToRange_loop (Suc fuel) rv sty stop st i =
         applyStyleToRange_loop fuel rv sty stop
           (splice sty wasGT st ps pRuns rNode s
              (min (int (length s) - pos_o ps) (stop - i)))
           (i + min (int (length s) - pos_o ps) (stop - i))"
proof -
  from classify_total obtain b where b: "classify rv (Some (JObj (baseRPr rNode))) = Inr b" ..
  from assms(5) have "pos_o ps \<noteq> - 1" "pos_o ps \<noteq> - 2" by auto
  with assms b show ?thesis by (simp add: Let_def)
qed

lemma loop_throws_on_non_string:
  assumes "i < stop" "at_int (posmap st) i = Some ps"
    "at_index (plist st) (pos_p ps) = Some pRuns" "at_index pRuns (pos_r ps) = Some rNode"
    "0 \<le> pos_o ps" "w_t rNode = Some tNode" "\<not> (\<exists>s. text_of tNode = PStr s)"
  shows "applyStyleToRange_loop (Suc fuel) rv sty stop st i = Some (Threw, st)"
proof -
  from assms(5) have "pos_o ps \<noteq> - 1" "pos_o ps \<noteq> - 2" by auto
  with assms show ?thesis by (cases "text_of tNode") (simp_all add: Let_def)
qed

lemma splice_paragraph:
  "pos_p ps < length (plist st) \<Longrightarrow>
   plist (splice sty wasGT st ps pRuns rNode s tk) ! pos_p ps =
     take (pos_r ps) pRuns @ split_run sty wasGT rNode s (pos_o ps) tk @ drop (Suc (pos_r ps)) pRuns"
  by (simp add: splice_def Let_def)

subsection \<open>The re-indexing\<close>

text \<open>
  What the re-indexing produces: every insertion goes to the same index, so the entries of
  the paragraph come out in the reverse of the order in which the loops generate them, and
  only real entries are generated.
\<close>

lemma fold_insert_at:
  "k \<le> length xs \<Longrightarrow> fold (\<lambda>e acc. insert_at k e acc) es xs = take k xs @ rev es @ drop k xs"
proof (induction es arbitrary: xs)
  case Nil
  then show ?case by simp
next
  case (Cons e es)
  let ?ys = "insert_at k e xs"
  from Cons.prems have "k \<le> length ?ys" by (simp add: insert_at_def)
  from Cons.IH[OF this] Cons.prems show ?case by (simp add: insert_at_def)
qed

lemma paraStartIdx_le:
  "paraStartIdx p m \<le> length (filter (\<lambda>e. pos_p e \<noteq> p) m)"
proof (cases "list_ex (\<lambda>e. pos_p e = p) m")
  case False
  then show ?thesis by (simp add: paraStartIdx_def)
next
  case True
  have "length (takeWhile (\<lambda>e. pos_p e \<noteq> p) m) \<le> length (filter (\<lambda>e. pos_p e \<noteq> p) m)"
    by (induction m) auto
  with True show ?thesis by (simp add: paraStartIdx_def)
qed

lemma reindex_reversed:
  "reindex p newRuns m =
     take (paraStartIdx p m) (filter (\<lambda>e. pos_p e \<noteq> p) m)
     @ rev (run_entries p 0 newRuns)
     @ drop (paraStartIdx p m) (filter (\<lambda>e. pos_p e \<noteq> p) m)"
  unfolding reindex_def by (rule fold_insert_at) (rule paraStartIdx_le)

subsection \<open>Texts are kept\<close>

text \<open>
  The part of the frame property that holds: whatever the range, \<open>applyStyleToRange\<close>
  changes no text. Every paragraph keeps the concatenation of its run texts, and the
  flattened text kept in the structure is not touched. (The entries of the map are the
  ones \<open>indexRuns\<close> and the re-indexing write: offsets from \<open>-2\<close> up.)
\<close>

definition para_texts :: "struct \<Rightarrow> jsstring list" where
  "para_texts st = map (\<lambda>runs. concat (map run_text runs)) (plist st)"

lemma slices_concat_stale:
  assumes "int (length s) < off"
  shows "js_slice s 0 off @ js_slice s off (off + (int (length s) - off))
         @ js_slice_from s (off + (int (length s) - off)) = s"
  using assms by (simp add: js_slice_def js_slice_from_def slice_index_def Let_def)

lemma split_run_text_kept:
  assumes "0 \<le> off" "0 < d"
  shows "concat (map run_text (split_run sty gt rNode s off (min (int (length s) - off) d))) = s"
proof (cases "off \<le> int (length s)")
  case True
  with assms have "0 \<le> min (int (length s) - off) d" by simp
  with assms(1) show ?thesis
    unfolding split_run_texts using slices_concat[of off "min (int (length s) - off) d" s] by auto
next
  case False
  then have lt: "int (length s) < off" by simp
  with assms have m: "min (int (length s) - off) d = int (length s) - off" by simp
  show ?thesis
    unfolding split_run_texts m using slices_concat_stale[OF lt] by auto
qed

lemma set_reindex:
  "set (reindex p newRuns m) \<subseteq> set m \<union> set (run_entries p 0 newRuns)"
proof -
  have "set (take k xs @ ys @ drop k xs) \<subseteq> set xs \<union> set ys" for k and xs ys :: "pos list"
    using set_take_subset[of k xs] set_drop_subset[of k xs] by auto
  then show ?thesis unfolding reindex_reversed by fastforce
qed

lemma run_entries_offsets: "e \<in> set (run_entries p k rs) \<Longrightarrow> 0 \<le> pos_o e"
  by (induction rs arbitrary: k) (auto split: option.splits)

lemma splice_offsets:
  assumes "\<forall>e \<in> set (posmap st). - 2 \<le> pos_o e"
  shows "\<forall>e \<in> set (posmap (splice sty gt st ps pRuns rNode s tk)). - 2 \<le> pos_o e"
proof
  fix e assume "e \<in> set (posmap (splice sty gt st ps pRuns rNode s tk))"
  then obtain nr where "e \<in> set (reindex (pos_p ps) nr (posmap st))"
    by (auto simp: splice_def Let_def)
  with set_reindex have "e \<in> set (posmap st) \<or> e \<in> set (run_entries (pos_p ps) 0 nr)" by blast
  then show "- 2 \<le> pos_o e"
  proof
    assume "e \<in> set (posmap st)" with assms show ?thesis by blast
  next
    assume "e \<in> set (run_entries (pos_p ps) 0 nr)"
    from run_entries_offsets[OF this] show ?thesis by simp
  qed
qed

lemma splice_texts:
  assumes p: "at_index (plist st) (pos_p ps) = Some pRuns"
    and r: "at_index pRuns (pos_r ps) = Some rNode"
    and t: "concat (map run_text (split_run sty gt rNode s (pos_o ps) tk)) = run_text rNode"
  shows "para_texts (splice sty gt st ps pRuns rNode s tk) = para_texts st
         \<and> full (splice sty gt st ps pRuns rNode s tk) = full st"
proof -
  from p have pl: "pos_p ps < length (plist st)" and pe: "plist st ! pos_p ps = pRuns"
    by (auto simp: at_index_def split: if_splits)
  from r have rl: "pos_r ps < length pRuns" and re: "pRuns ! pos_r ps = rNode"
    by (auto simp: at_index_def split: if_splits)
  let ?f = "\<lambda>runs. concat (map run_text runs)"
  let ?new = "take (pos_r ps) pRuns @ split_run sty gt rNode s (pos_o ps) tk
              @ drop (Suc (pos_r ps)) pRuns"
  from rl have "pRuns = take (pos_r ps) pRuns @ pRuns ! pos_r ps # drop (Suc (pos_r ps)) pRuns"
    by (rule id_take_nth_drop)
  then have "?f pRuns = ?f (take (pos_r ps) pRuns @ pRuns ! pos_r ps # drop (Suc (pos_r ps)) pRuns)"
    by (rule arg_cong)
  also have "\<dots> = ?f (take (pos_r ps) pRuns) @ run_text rNode @ ?f (drop (Suc (pos_r ps)) pRuns)"
    using re by simp
  finally have whole: "?f pRuns =
      ?f (take (pos_r ps) pRuns) @ run_text rNode @ ?f (drop (Suc (pos_r ps)) pRuns)" .
  from t whole have same: "?f ?new = ?f pRuns" by simp
  have "map ?f ((plist st)[pos_p ps := ?new]) = (map ?f (plist st))[pos_p ps := ?f ?new]"
    by (rule map_update)
  also have "\<dots> = (map ?f (plist st))[pos_p ps := (map ?f (plist st)) ! pos_p ps]"
    using pl pe same by simp
  also have "\<dots> = map ?f (plist st)" by (rule list_update_id)
  finally show ?thesis by (simp add: para_texts_def splice_def Let_def)
qed

lemma loop_keeps_texts:
  "\<forall>e \<in> set (posmap st). - 2 \<le> pos_o e \<Longrightarrow>
   applyStyleToRange_loop fuel rv sty stop st i = Some (oc, st') \<Longrightarrow>
   para_texts st' = para_texts st \<and> full st' = full st"
proof (induction fuel arbitrary: st i)
  case 0
  then show ?case by simp
next
  case (Suc fuel)
  note inv = Suc.prems(1) and run = Suc.prems(2)
  show ?case
  proof (cases "i < stop")
    case False
    with run show ?thesis by simp
  next
    case lt: True
    have skip: ?thesis if "applyStyleToRange_loop fuel rv sty stop st (i + 1) = Some (oc, st')"
      using Suc.IH[OF inv that] .
    show ?thesis
    proof (cases "at_int (posmap st) i")
      case None
      with run lt skip show ?thesis by (cases rv) auto
    next
      case (Some ps)
      then have mem: "ps \<in> set (posmap st)" by (auto simp: at_int_def split: if_splits)
      show ?thesis
      proof (cases "at_index (plist st) (pos_p ps)")
        case None
        with run lt skip Some show ?thesis by (cases rv) auto
      next
        case pr: (Some pRuns)
        show ?thesis
        proof (cases "at_index pRuns (pos_r ps)")
          case None
          with run lt skip Some pr show ?thesis by (cases rv) auto
        next
          case rn: (Some rNode)
          show ?thesis
          proof (cases "pos_o ps = - 1 \<or> pos_o ps = - 2")
            case True
            with run lt skip Some pr rn show ?thesis by auto
          next
            case real: False
            with inv mem have o: "0 \<le> pos_o ps" by force
            show ?thesis
            proof (cases "w_t rNode")
              case None
              with run lt skip Some pr rn real show ?thesis by auto
            next
              case tn: (Some tNode)
              show ?thesis
              proof (cases "\<exists>s. text_of tNode = PStr s")
                case False
                from loop_throws_on_non_string[OF lt Some pr rn o tn this, of fuel rv sty] run
                show ?thesis by simp
              next
                case True
                then obtain s where s: "text_of tNode = PStr s" by blast
                let ?tk = "min (int (length s) - pos_o ps) (stop - i)"
                from loop_splices_run[OF lt Some pr rn o tn s, of rv fuel sty]
                obtain gt where
                  eq: "applyStyleToRange_loop (Suc fuel) rv sty stop st i =
                         applyStyleToRange_loop fuel rv sty stop
                           (splice sty gt st ps pRuns rNode s ?tk) (i + ?tk)"
                  by blast
                let ?st = "splice sty gt st ps pRuns rNode s ?tk"
                from lt have "0 < stop - i" by simp
                from split_run_text_kept[OF o this, of sty gt rNode s] tn s
                have "concat (map run_text (split_run sty gt rNode s (pos_o ps) ?tk))
                        = run_text rNode"
                  by (simp add: run_text_def)
                from splice_texts[OF pr rn this]
                have keep: "para_texts ?st = para_texts st \<and> full ?st = full st" .
                from run eq have "applyStyleToRange_loop fuel rv sty stop ?st (i + ?tk) = Some (oc, st')"
                  by simp
                from Suc.IH[OF splice_offsets[OF inv] this] keep show ?thesis by simp
              qed
            qed
          qed
        qed
      qed
    qed
  qed
qed

lemma index_run_offsets:
  "\<forall>e \<in> set m. - 2 \<le> pos_o e \<Longrightarrow>
   \<forall>e \<in> set (fst (index_run rv pIdx rIdx x (m, fl))). - 2 \<le> pos_o e"
  by (auto simp: index_run_def Let_def split: option.splits)

lemma index_runs_offsets:
  "\<forall>e \<in> set (fst acc). - 2 \<le> pos_o e \<Longrightarrow>
   \<forall>e \<in> set (fst (index_runs rv pIdx rIdx rs acc)). - 2 \<le> pos_o e"
proof (induction rs arbitrary: rIdx acc)
  case Nil
  then show ?case by simp
next
  case (Cons x rs)
  obtain m fl where acc: "acc = (m, fl)" by (cases acc)
  with Cons.prems have "\<forall>e \<in> set m. - 2 \<le> pos_o e" by simp
  from index_run_offsets[OF this] show ?case
    unfolding acc index_runs.simps by (rule Cons.IH)
qed

lemma index_paragraphs_offsets:
  "\<forall>e \<in> set (fst acc). - 2 \<le> pos_o e \<Longrightarrow>
   \<forall>e \<in> set (fst (index_paragraphs rv pIdx ps acc)). - 2 \<le> pos_o e"
proof (induction ps arbitrary: pIdx acc)
  case Nil
  then show ?case by simp
next
  case (Cons runs ps)
  from index_runs_offsets[OF Cons.prems] show ?case
    unfolding index_paragraphs.simps by (rule Cons.IH)
qed

lemma indexRuns_offsets: "\<forall>e \<in> set (posmap (indexRuns rv paragraphs)). - 2 \<le> pos_o e"
proof -
  have "\<forall>e \<in> set (fst (index_paragraphs rv 0 (map runs_of paragraphs) ([], []))). - 2 \<le> pos_o e"
    by (rule index_paragraphs_offsets) simp
  then show ?thesis by (simp add: indexRuns_def split: prod.splits)
qed

lemma applyStyleToRange_keeps_texts:
  assumes "applyStyleToRange fuel rv (indexRuns rv0 paragraphs) start stop sty = Some (oc, st')"
  shows "para_texts st' = map (\<lambda>p. concat (map run_text (runs_of p))) paragraphs
         \<and> full st' = full (indexRuns rv0 paragraphs)"
proof -
  let ?st = "indexRuns rv0 paragraphs"
  have pl: "para_texts ?st = map (\<lambda>p. concat (map run_text (runs_of p))) paragraphs"
    by (simp add: para_texts_def indexRuns_def comp_def split: prod.splits)
  show ?thesis
  proof (cases "applyStyleToRange fuel rv ?st start stop sty = Some (Returned, ?st)")
    case True
    with assms pl show ?thesis by simp
  next
    case False
    then have "applyStyleToRange fuel rv ?st start stop sty
                 = applyStyleToRange_loop fuel rv sty stop ?st start"
      by (auto simp: applyStyleToRange_def split: if_splits option.splits)
    with assms have "applyStyleToRange_loop fuel rv sty stop ?st start = Some (oc, st')" by simp
    from loop_keeps_texts[OF indexRuns_offsets this] pl show ?thesis by simp
  qed
qed

subsection \<open>The loop ends\<close>

text \<open>
  While every real entry of the map resolves, each step of the loop moves forward: a real
  entry has at least one code unit left in its run. The re-indexing writes only entries
  that resolve, so the loop ends within \<open>end - start\<close> steps and the last test, on a
  structure built by \<open>indexRuns\<close>.
\<close>

definition map_resolves :: "struct \<Rightarrow> bool" where
  "map_resolves st \<longleftrightarrow> (\<forall>e \<in> set (posmap st). 0 \<le> pos_o e \<longrightarrow> resolves (plist st) e)"

lemma run_entries_resolve:
  "e \<in> set (run_entries p k rs) \<Longrightarrow>
   pos_p e = p \<and> k \<le> pos_r e \<and> pos_r e < k + length rs
   \<and> (\<exists>t. w_t (rs ! (pos_r e - k)) = Some t \<and> pos_o e < int (text_length (text_of t)))"
proof (induction rs arbitrary: k)
  case Nil
  then show ?case by simp
next
  case (Cons x rs)
  from Cons.prems
  have "e \<in> set (case w_t x of None \<Rightarrow> []
            | Some rt \<Rightarrow> map (\<lambda>off. \<lparr>pos_p = p, pos_r = k, pos_o = int off\<rparr>)
                           [0..<text_length (text_of rt)])
        \<or> e \<in> set (run_entries p (Suc k) rs)"
    by simp
  then show ?case
  proof
    assume "e \<in> set (case w_t x of None \<Rightarrow> []
            | Some rt \<Rightarrow> map (\<lambda>off. \<lparr>pos_p = p, pos_r = k, pos_o = int off\<rparr>)
                           [0..<text_length (text_of rt)])"
    then show ?thesis by (cases "w_t x") auto
  next
    assume "e \<in> set (run_entries p (Suc k) rs)"
    from Cons.IH[OF this]
    have r: "pos_p e = p \<and> Suc k \<le> pos_r e \<and> pos_r e < Suc k + length rs
      \<and> (\<exists>t. w_t (rs ! (pos_r e - Suc k)) = Some t \<and> pos_o e < int (text_length (text_of t)))" .
    then have "pos_r e - k = Suc (pos_r e - Suc k)" by arith
    then have "(x # rs) ! (pos_r e - k) = rs ! (pos_r e - Suc k)" by simp
    with r show ?thesis by auto
  qed
qed

lemma set_reindex_filter:
  "set (reindex p newRuns m) \<subseteq> {e \<in> set m. pos_p e \<noteq> p} \<union> set (run_entries p 0 newRuns)"
proof -
  have "set (take k xs @ ys @ drop k xs) \<subseteq> set xs \<union> set ys" for k and xs ys :: "pos list"
    using set_take_subset[of k xs] set_drop_subset[of k xs] by auto
  from this[of "paraStartIdx p m" "filter (\<lambda>e. pos_p e \<noteq> p) m" "rev (run_entries p 0 newRuns)"]
  show ?thesis unfolding reindex_reversed by auto
qed

lemma splice_resolves:
  assumes inv: "map_resolves st"
    and p: "at_index (plist st) (pos_p ps) = Some pRuns"
  shows "map_resolves (splice sty gt st ps pRuns rNode s tk)"
  unfolding map_resolves_def
proof (intro ballI impI)
  let ?new = "take (pos_r ps) pRuns @ split_run sty gt rNode s (pos_o ps) tk
              @ drop (Suc (pos_r ps)) pRuns"
  let ?st = "splice sty gt st ps pRuns rNode s tk"
  have pl: "plist ?st = (plist st)[pos_p ps := ?new]"
    and pm: "posmap ?st = reindex (pos_p ps) ?new (posmap st)"
    by (simp_all add: splice_def Let_def)
  from p have plen: "pos_p ps < length (plist st)" by (simp add: at_index_def split: if_splits)
  fix e assume e: "e \<in> set (posmap ?st)" and o: "0 \<le> pos_o e"
  from e pm set_reindex_filter[of "pos_p ps" ?new "posmap st"]
  have "(e \<in> set (posmap st) \<and> pos_p e \<noteq> pos_p ps) \<or> e \<in> set (run_entries (pos_p ps) 0 ?new)"
    by auto
  then show "resolves (plist ?st) e"
  proof
    assume old: "e \<in> set (posmap st) \<and> pos_p e \<noteq> pos_p ps"
    with inv o have "resolves (plist st) e" by (simp add: map_resolves_def)
    moreover from old have "at_index ((plist st)[pos_p ps := ?new]) (pos_p e) = at_index (plist st) (pos_p e)"
      by (simp add: at_index_def)
    ultimately show ?thesis by (simp add: resolves_def pl)
  next
    assume "e \<in> set (run_entries (pos_p ps) 0 ?new)"
    from run_entries_resolve[OF this]
    obtain t where "pos_p e = pos_p ps" "pos_r e < length ?new" "w_t (?new ! pos_r e) = Some t"
      "pos_o e < int (text_length (text_of t))" by auto
    with plen show ?thesis by (simp add: resolves_def pl at_index_def)
  qed
qed

lemma loop_returns:
  "map_resolves st \<Longrightarrow> nat (stop - i) < fuel \<Longrightarrow>
   \<exists>oc st'. applyStyleToRange_loop fuel rv sty stop st i = Some (oc, st')"
proof (induction fuel arbitrary: st i)
  case 0
  then show ?case by simp
next
  case (Suc fuel)
  note inv = Suc.prems(1) and fl = Suc.prems(2)
  show ?case
  proof (cases "i < stop")
    case False
    then show ?thesis by simp
  next
    case lt: True
    with fl have "nat (stop - (i + 1)) < fuel" by simp
    from Suc.IH[OF inv this]
    obtain oc1 st1 where skip: "applyStyleToRange_loop fuel rv sty stop st (i + 1) = Some (oc1, st1)"
      by blast
    show ?thesis
    proof (cases "at_int (posmap st) i")
      case None
      with lt skip show ?thesis by (cases rv) auto
    next
      case (Some ps)
      then have mem: "ps \<in> set (posmap st)" by (auto simp: at_int_def split: if_splits)
      show ?thesis
      proof (cases "at_index (plist st) (pos_p ps)")
        case None
        with lt skip Some show ?thesis by (cases rv) auto
      next
        case pr: (Some pRuns)
        show ?thesis
        proof (cases "at_index pRuns (pos_r ps)")
          case None
          with lt skip Some pr show ?thesis by (cases rv) auto
        next
          case rn: (Some rNode)
          show ?thesis
          proof (cases "pos_o ps = - 1 \<or> pos_o ps = - 2")
            case True
            with lt skip Some pr rn show ?thesis by auto
          next
            case nosyn: False
            show ?thesis
            proof (cases "w_t rNode")
              case None
              with lt skip Some pr rn nosyn show ?thesis by auto
            next
              case tn: (Some tNode)
              show ?thesis
              proof (cases "text_of tNode")
                case (PNum n)
                with lt Some pr rn nosyn tn show ?thesis by simp
              next
                case (PBool b)
                with lt Some pr rn nosyn tn show ?thesis by simp
              next
                case (PStr s)
                let ?tk = "min (int (length s) - pos_o ps) (stop - i)"
                have "pos_o ps < int (length s)"
                proof (cases "0 \<le> pos_o ps")
                  case False
                  then show ?thesis by simp
                next
                  case True
                  with inv mem have "resolves (plist st) ps" by (simp add: map_resolves_def)
                  with pr rn tn PStr show ?thesis by (simp add: resolves_def)
                qed
                with lt have "1 \<le> ?tk" by simp
                with fl lt have fl2: "nat (stop - (i + ?tk)) < fuel" by simp
                from classify_total obtain gt
                  where gt: "classify rv (Some (JObj (baseRPr rNode))) = Inr gt" by blast
                have eq: "applyStyleToRange_loop (Suc fuel) rv sty stop st i =
                           applyStyleToRange_loop fuel rv sty stop
                             (splice sty gt st ps pRuns rNode s ?tk) (i + ?tk)"
                  using lt Some pr rn nosyn tn gt PStr by (simp add: Let_def)
                from Suc.IH[OF splice_resolves[OF inv pr] fl2] show ?thesis
                  unfolding eq .
              qed
            qed
          qed
        qed
      qed
    qed
  qed
qed

lemma indexRuns_map_resolves: "map_resolves (indexRuns rv paragraphs)"
  using indexRuns_resolves[of _ rv paragraphs] by (simp add: map_resolves_def)

text \<open>
  Together: on the structure of any document, for any range, \<open>applyStyleToRange\<close> comes to
  an end (normally, or in \<open>Rev1\<close> by a \<open>TypeError\<close> on an entry that resolves to nothing),
  and it has changed no text.
\<close>

lemma applyStyleToRange_returns:
  "\<exists>oc st'. applyStyleToRange (Suc (nat (stop - start))) rv (indexRuns rv0 paragraphs) start stop sty
               = Some (oc, st')
     \<and> para_texts st' = map (\<lambda>p. concat (map run_text (runs_of p))) paragraphs
     \<and> full st' = full (indexRuns rv0 paragraphs)"
proof -
  let ?st = "indexRuns rv0 paragraphs" and ?fuel = "Suc (nat (stop - start))"
  have "\<exists>oc st'. applyStyleToRange ?fuel rv ?st start stop sty = Some (oc, st')"
  proof (cases "applyStyleToRange ?fuel rv ?st start stop sty = Some (Returned, ?st)")
    case True
    then show ?thesis by blast
  next
    case False
    then have "applyStyleToRange ?fuel rv ?st start stop sty
                 = applyStyleToRange_loop ?fuel rv sty stop ?st start"
      by (auto simp: applyStyleToRange_def split: if_splits option.splits)
    moreover have "\<exists>oc st'. applyStyleToRange_loop ?fuel rv sty stop ?st start = Some (oc, st')"
      by (rule loop_returns[OF indexRuns_map_resolves]) simp
    ultimately show ?thesis by simp
  qed
  then obtain oc st' where r: "applyStyleToRange ?fuel rv ?st start stop sty = Some (oc, st')"
    by blast
  from applyStyleToRange_keeps_texts[OF r] r show ?thesis by blast
qed

subsection \<open>The tree\<close>

text \<open>
  What a splice changes of the tree. A paragraph with a single run, or with none, has no
  array of runs in the tree (\<open>detached\<close>): the splice works on the array made for it by
  \<open>indexRuns\<close>, and the tree keeps the run as it was. A document all of whose paragraphs
  are such comes back from \<open>annotateDocxWithDetections\<close> as it went in, whatever the
  detections.
\<close>

definition detached :: "para \<Rightarrow> bool" where
  "detached pa = (case pa of RunArray rs \<Rightarrow> False | _ \<Rightarrow> True)"

lemma splice_doc_detached: "list_all detached d \<Longrightarrow> splice_doc d p nr = d"
  by (auto simp: splice_doc_def at_index_def list_all_length detached_def split: option.splits para.splits)

lemma splice_keeps_detached:
  "list_all detached (doc st) \<Longrightarrow> doc (splice sty gt st ps pRuns rNode s tk) = doc st"
  by (simp add: splice_def Let_def splice_doc_detached)

lemma loop_invariant:
  assumes step: "\<And>st gt ps pRuns rNode s tk. P st \<Longrightarrow> P (splice sty gt st ps pRuns rNode s tk)"
  shows "P st \<Longrightarrow> applyStyleToRange_loop fuel rv sty stop st i = Some (oc, st') \<Longrightarrow> P st'"
proof (induction fuel arbitrary: st i)
  case 0
  then show ?case by simp
next
  case (Suc fuel)
  from Suc.prems Suc.IH step show ?case
    by (auto simp: Let_def split: if_splits option.splits revision.splits payload.splits sum.splits)
       blast
qed

lemma applyStyleToRange_invariant:
  assumes step: "\<And>st gt ps pRuns rNode s tk. P st \<Longrightarrow> P (splice sty gt st ps pRuns rNode s tk)"
    and "P st" "applyStyleToRange fuel rv st start stop sty = Some (oc, st')"
  shows "P st'"
  using assms(2,3) loop_invariant[of P sty st fuel rv stop start oc st', OF step]
  by (auto simp: applyStyleToRange_def split: if_splits option.splits revision.splits)

lemma annotate_range_detached:
  assumes "list_all detached (doc st)" "annotate_range fuel xmlText v j st = Some st'"
  shows "doc st' = doc st"
proof -
  let ?P = "\<lambda>s. doc s = doc st"
  have step: "?P s \<Longrightarrow> ?P (splice sty gt s ps pRuns rNode tx tk)" for s sty gt ps pRuns rNode tx tk
    using assms(1) by (simp add: splice_keeps_detached)
  have "doc st1 = doc st"
    if "applyStyleToRange fuel Rev1 st a b sty = Some (oc, st1)" for a b sty oc st1
    using applyStyleToRange_invariant[of ?P sty st fuel Rev1 a b oc st1, OF step _ that] by simp
  with assms(2) show ?thesis
    by (auto simp: annotate_range_def Let_def split: if_splits prod.splits sum.splits)
qed

lemma annotate_ranges_detached:
  "list_all detached (doc st) \<Longrightarrow> annotate_ranges fuel xmlText v idxs st = Some st' \<Longrightarrow> doc st' = doc st"
proof (induction idxs arbitrary: st)
  case Nil
  then show ?case by simp
next
  case (Cons j idxs)
  from Cons.prems(2) obtain st1 where 1: "annotate_range fuel xmlText v j st = Some st1"
    and 2: "annotate_ranges fuel xmlText v idxs st1 = Some st'"
    by (auto split: option.splits)
  from annotate_range_detached[OF Cons.prems(1) 1] have d: "doc st1 = doc st" .
  with Cons.prems(1) have "list_all detached (doc st1)" by simp
  from Cons.IH[OF this 2] d show ?case by simp
qed

lemma annotate_detections_detached:
  "list_all detached (doc st) \<Longrightarrow> annotate_detections fuel fullText xmlText ds st = Some st'
   \<Longrightarrow> doc st' = doc st"
proof (induction ds arbitrary: st)
  case Nil
  then show ?case by simp
next
  case (Cons d ds)
  from Cons.prems(2) obtain st1
    where 1: "annotate_detection fuel fullText xmlText st (det_value d) = Some st1"
    and 2: "annotate_detections fuel fullText xmlText ds st1 = Some st'"
    by (auto split: option.splits)
  from 1 Cons.prems(1) have d: "doc st1 = doc st"
    by (auto simp: annotate_detection_def Let_def annotate_ranges_detached split: if_splits)
  with Cons.prems(1) have "list_all detached (doc st1)" by simp
  from Cons.IH[OF this 2] d show ?case by simp
qed

lemma annotate_single_runs_unchanged:
  assumes "list_all detached paragraphs"
    "annotateDocxWithDetections fuel mammothText paragraphs detections = Some d"
  shows "d = paragraphs"
proof -
  from assms(2) obtain st' where
    "annotate_detections fuel mammothText (full (indexRuns Rev1 paragraphs)) detections
       (indexRuns Rev1 paragraphs) = Some st'" and d: "d = doc st'"
    by (auto simp: annotateDocxWithDetections_def annotate_struct_def Let_def)
  from annotate_detections_detached[OF _ this(1)] assms(1) d show ?thesis by simp
qed

section \<open>Example documents\<close>

text \<open>The definitions a concrete flattening unfolds, and small documents to run on.\<close>

definition doc_ab :: "para list" where
  "doc_ab = [OneRun \<lparr>w_rPr = None, w_t = Some (TStr (js ''ab'')), children = []\<rparr>]"

lemmas flatten_defs = indexRuns_def index_run_def shouldAddSpace_def js_def
  is_ws_def is_alnum_def is_punct_def

lemmas locate_defs = findAll_def findAll_loop.simps indexOf_def occurs_at_def

lemmas splice_defs = applyStyleToRange_def at_int_def at_index_def classify_def
  isBoldRed_def isRed_def redish_def red_regex_test_def ci_char_def baseRPr_def
  splice_def splice_doc_def split_run_def js_slice_def js_slice_from_def slice_index_def mkRun_def
  copyNonTextChildren_def reindex_def paraStartIdx_def insert_at_def Let_def

lemmas annotate_defs = annotateDocxWithDetections_def annotate_struct_def annotate_detection_def
  annotate_range_def spanWasBoldRed_def exact_props_def brown_props_def

lemma struct_ab:
  "indexRuns rv doc_ab =
     \<lparr>doc = doc_ab,
      plist = map runs_of doc_ab,
      posmap = [\<lparr>pos_p = 0, pos_r = 0, pos_o = 0\<rparr>, \<lparr>pos_p = 0, pos_r = 0, pos_o = 1\<rparr>],
      full = js ''ab''\<rparr>"
  by (simp add: flatten_defs doc_ab_def)

text \<open>
  The scenario of the specification: one paragraph, one bold red run with the text
  \<open>Dr. Andreas Konig\<close>, the \<open>o\<close> with a diaeresis (the code unit 246). The parser gives
  the empty string for the bold element \<open><w:b/>\<close>, and an object holding the attribute for
  \<open><w:b w:val="true"/>\<close>.
\<close>

definition konig :: jsstring where
  "konig = js ''Dr. Andreas K'' @ [246] @ js ''nig''"

definition andreas_konig :: jsstring where
  "andreas_konig = js ''Andreas K'' @ [246] @ js ''nig''"

definition red_color :: json where
  "red_color = JObj [(W_VAL, JStr (js ''FF0000''))]"

definition props_konig :: props where
  "props_konig = [(W_B, JObj [(W_VAL, JStr (js ''true''))]), (W_COLOR, red_color)]"

definition props_konig_b :: props where
  "props_konig_b = [(W_B, JStr []), (W_COLOR, red_color)]"

definition run_konig :: "props \<Rightarrow> run" where
  "run_konig pr = \<lparr>w_rPr = Some pr, w_t = Some (TStr konig), children = []\<rparr>"

definition doc_konig :: "para list" where
  "doc_konig = [OneRun (run_konig props_konig)]"

definition plain_run :: "jsstring \<Rightarrow> run" where
  "plain_run s = \<lparr>w_rPr = None, w_t = Some (TStr s), children = []\<rparr>"

definition doc_abc :: "para list" where
  "doc_abc = [OneRun (plain_run (js ''abc''))]"

definition doc_a_b :: "para list" where
  "doc_a_b = [RunArray [plain_run (js ''a''), plain_run (js ''b'')]]"

definition doc_a_sp_b :: "para list" where
  "doc_a_sp_b = [RunArray [plain_run (js ''a ''), plain_run (js ''b'')]]"

lemmas doc_defs = plain_run_def doc_ab_def doc_abc_def doc_a_b_def doc_a_sp_b_def
section \<open>Properties\<close>

subsection \<open>The position map after a splice\<close>

text \<open>
  C1 fails on the code. After \<open>applyStyleToRange\<close> has split the run \<open>abc\<close> for the range
  \<open>[0, 2)\<close> into \<open>ab\<close> and \<open>c\<close>, the rebuilt entries of the paragraph are those of run 1
  followed by those of run 0, and the offsets of run 0 are listed as 1, 0: reversed, not in
  increasing order, and no longer in the order of the flattened text. In the paragraph of
  the runs \<open>a\<close> and \<open>b\<close>, flattened to \<open>a b\<close> with a join space, the map has three entries
  before the call on \<open>[0, 1)\<close> and two after it: the synthetic entry is gone, while the
  flattened text kept by the structure and a new flattening of the runs still have three
  characters. Both revisions behave so.
\<close>

theorem reindex_reverses_and_drops_synthetic:
  "map_option (posmap \<circ> snd)
     (applyStyleToRange (Suc (Suc 0)) Rev1 (indexRuns Rev1 doc_abc) 0 2 (\<lambda>m g. brown_props m))
     = Some [\<lparr>pos_p = 0, pos_r = 1, pos_o = 0\<rparr>,
             \<lparr>pos_p = 0, pos_r = 0, pos_o = 1\<rparr>,
             \<lparr>pos_p = 0, pos_r = 0, pos_o = 0\<rparr>]
   \<and> map_option (posmap \<circ> snd)
     (applyStyleToRange (Suc (Suc 0)) Rev0 (indexRuns Rev0 doc_abc) 0 2 (\<lambda>m g. brown_props m))
     = Some [\<lparr>pos_p = 0, pos_r = 1, pos_o = 0\<rparr>,
             \<lparr>pos_p = 0, pos_r = 0, pos_o = 1\<rparr>,
             \<lparr>pos_p = 0, pos_r = 0, pos_o = 0\<rparr>]
   \<and> map_option (map (map run_text) \<circ> plist \<circ> snd)
     (applyStyleToRange (Suc (Suc 0)) Rev1 (indexRuns Rev1 doc_abc) 0 2 (\<lambda>m g. brown_props m))
     = Some [[js ''ab'', js ''c'']]
   \<and> posmap (indexRuns Rev1 doc_a_b)
     = [\<lparr>pos_p = 0, pos_r = 0, pos_o = 0\<rparr>,
        \<lparr>pos_p = 0, pos_r = 1, pos_o = - 2\<rparr>,
        \<lparr>pos_p = 0, pos_r = 1, pos_o = 0\<rparr>]
   \<and> posmap (indexRuns Rev0 doc_a_b) = posmap (indexRuns Rev1 doc_a_b)
   \<and> map_option (posmap \<circ> snd)
     (applyStyleToRange (Suc (Suc 0)) Rev1 (indexRuns Rev1 doc_a_b) 0 1 (\<lambda>m g. brown_props m))
     = Some [\<lparr>pos_p = 0, pos_r = 1, pos_o = 0\<rparr>, \<lparr>pos_p = 0, pos_r = 0, pos_o = 0\<rparr>]
   \<and> map_option (posmap \<circ> snd)
     (applyStyleToRange (Suc (Suc 0)) Rev0 (indexRuns Rev0 doc_a_b) 0 1 (\<lambda>m g. brown_props m))
     = Some [\<lparr>pos_p = 0, pos_r = 1, pos_o = 0\<rparr>, \<lparr>pos_p = 0, pos_r = 0, pos_o = 0\<rparr>]
   \<and> map_option (full \<circ> snd)
     (applyStyleToRange (Suc (Suc 0)) Rev1 (indexRuns Rev1 doc_a_b) 0 1 (\<lambda>m g. brown_props m))
     = Some (js ''a b'')
   \<and> map_option (\<lambda>r. full (indexRuns Rev1 (map RunArray (plist (snd r)))))
     (applyStyleToRange (Suc (Suc 0)) Rev1 (indexRuns Rev1 doc_a_b) 0 1 (\<lambda>m g. brown_props m))
     = Some (js ''a b'')"
  by (simp add: flatten_defs splice_defs doc_defs run_text_def brown_props_def)

subsection \<open>A range over two runs\<close>

text \<open>
  C2 fails on the code, by the defect of C1. The paragraph of the runs \<open>a \<close> and \<open>b\<close> is
  flattened to \<open>a b\<close>, with three real entries, and \<open>[0, 3)\<close> is a valid range that covers
  all of them. The first step styles \<open>a \<close> and re-indexes the paragraph in reverse, so the
  loop, at position 2, finds the entry of offset 0 of run 0 where the entry of \<open>b\<close> was: it
  splits the styled run again, and ends. The call returns normally; the run \<open>b\<close>, whose
  character is a real position inside the range, is left as it was, without the overlay,
  and \<open>a\<close> has had the overlay applied twice. The run texts still concatenate to \<open>a b\<close>,
  as they always do.
\<close>

theorem applyStyleToRange_misses_second_run:
  "posmap (indexRuns Rev1 doc_a_sp_b)
     = [\<lparr>pos_p = 0, pos_r = 0, pos_o = 0\<rparr>,
        \<lparr>pos_p = 0, pos_r = 0, pos_o = 1\<rparr>,
        \<lparr>pos_p = 0, pos_r = 1, pos_o = 0\<rparr>]
   \<and> full (indexRuns Rev1 doc_a_sp_b) = js ''a b''
   \<and> map_option (\<lambda>r. (fst r, plist (snd r)))
       (applyStyleToRange (Suc (Suc (Suc 0))) Rev1 (indexRuns Rev1 doc_a_sp_b) 0 3
          (\<lambda>m g. brown_props m))
       = Some (Returned,
               [[mkRun (js ''a'') (brown_props (brown_props [])),
                 mkRun (js '' '') (brown_props []),
                 plain_run (js ''b'')]])
   \<and> w_rPr (plain_run (js ''b'')) = None
   \<and> map_option (\<lambda>d. map (map run_text \<circ> runs_of) d)
       (annotateDocxWithDetections (Suc (Suc (Suc 0))) (js ''a b'') doc_a_sp_b
          [\<lparr>det_type = js ''NAME'', det_value = js ''a b''\<rparr>])
       = Some [[js ''a'', js '' '', js ''b'']]
   \<and> map_option (\<lambda>d. map (map w_rPr \<circ> runs_of) d)
       (annotateDocxWithDetections (Suc (Suc (Suc 0))) (js ''a b'') doc_a_sp_b
          [\<lparr>det_type = js ''NAME'', det_value = js ''a b''\<rparr>])
       = Some [[Some (brown_props []), Some (brown_props []), None]]"
  by (simp add: flatten_defs splice_defs locate_defs annotate_defs doc_defs run_text_def)

subsection \<open>The position map of the Flattener\<close>

text \<open>
  A run whose text reads as a number: \<open><w:t xml:space="preserve">2024</w:t>\<close> is parsed
  to the object \<open>{"#text": 2024, "xml:space": "preserve"}\<close>, the payload a number.
\<close>

definition run_2024 :: run where
  "run_2024 =
     \<lparr>w_rPr = None,
      w_t = Some (TObj (Some (PNum 2024)) [(''xml:space'', js ''preserve'')]),
      children = []\<rparr>"

definition doc_2024 :: "para list" where
  "doc_2024 = [OneRun run_2024]"

definition doc_in_2024 :: "para list" where
  "doc_in_2024 = [RunArray [plain_run (js ''In''), run_2024, plain_run (js ''.'')]]"

lemma digits_2024: "num_to_string 2024 = js ''2024''"
proof -
  have "digits10 2 = [50]" by (subst digits10.simps) simp
  then have "digits10 20 = [50, 48]" by (subst digits10.simps) simp
  then have "digits10 202 = [50, 48, 50]" by (subst digits10.simps) simp
  then have "digits10 2024 = [50, 48, 50, 52]" by (subst digits10.simps) simp
  then show ?thesis by (simp add: num_to_string_def js_def)
qed

text \<open>
  C3 fails on the code. For the run \<open>2024\<close> above, \<open>text\<close> is the number \<open>2024\<close>:
  \<open>text.length\<close> is \<open>undefined\<close>, no entry is pushed, and \<open>full += text\<close> appends the four
  characters \<open>2024\<close>. The document of this one run is flattened to a text of length 4 with
  an empty position map; in the paragraph of the runs \<open>In\<close>, \<open>2024\<close> and \<open>.\<close> the text has
  seven characters and the map three entries, so that the entry of the full stop, which
  is character 6 of the text, is entry 2 of the map. Both revisions behave so. (The other
  half of the claim holds: the real entries that are written resolve.)
\<close>

theorem indexRuns_numeric_text_unmapped:
  "posmap (indexRuns Rev1 doc_2024) = []
   \<and> full (indexRuns Rev1 doc_2024) = js ''2024''
   \<and> posmap (indexRuns Rev0 doc_2024) = []
   \<and> full (indexRuns Rev0 doc_2024) = js ''2024''
   \<and> posmap (indexRuns Rev1 doc_in_2024)
     = [\<lparr>pos_p = 0, pos_r = 0, pos_o = 0\<rparr>,
        \<lparr>pos_p = 0, pos_r = 0, pos_o = 1\<rparr>,
        \<lparr>pos_p = 0, pos_r = 2, pos_o = 0\<rparr>]
   \<and> full (indexRuns Rev1 doc_in_2024) = js ''In2024.''
   \<and> length (posmap (indexRuns Rev1 doc_in_2024)) = 3
   \<and> length (full (indexRuns Rev1 doc_in_2024)) = 7
   \<and> length (posmap (indexRuns Rev0 doc_in_2024)) = 4
   \<and> length (full (indexRuns Rev0 doc_in_2024)) = 8"
  by (simp add: flatten_defs doc_defs doc_2024_def doc_in_2024_def run_2024_def digits_2024)

subsection \<open>Fragments of a split run\<close>

text \<open>
  The scenario in a paragraph of two runs, where the array of runs is part of the tree:
  the bold red run \<open>Dr. Andreas Konig\<close>, its bold element written \<open><w:b/>\<close>, followed by
  a plain run.
\<close>

definition doc_konig_b :: "para list" where
  "doc_konig_b = [OneRun (run_konig props_konig_b)]"

definition doc_konig_ok :: "para list" where
  "doc_konig_ok = [RunArray [run_konig props_konig_b, plain_run (js '' ok'')]]"

definition det_konig :: "detection list" where
  "det_konig = [\<lparr>det_type = js ''NAME'', det_value = andreas_konig\<rparr>]"

lemmas konig_defs = doc_konig_def doc_konig_b_def doc_konig_ok_def det_konig_def run_konig_def
  konig_def andreas_konig_def props_konig_def props_konig_b_def red_color_def plain_run_def

text \<open>
  C4 fails on the code, in its scenario. The document has one paragraph with one run, so
  \<open>plist[0]\<close> is an array that \<open>indexRuns\<close> has made, not one of the tree. The splice puts
  the fragments \<open>Dr. \<close> (original properties) and \<open>Andreas Konig\<close> (ground-truth overlay)
  into that array; the tree, which is what \<open>annotateDocxWithDetections\<close> serialises,
  still holds the one run with its whole text and its original properties: the document
  comes back unchanged, with no fragment and no overlay in it. This is so for either
  form of the bold element. Moreover, when the bold element is \<open><w:b/>\<close>, which the
  parser gives as the empty string, the run is not classified as ground truth although
  it is bold and red: in the paragraph of two runs, where the fragments do reach the
  tree, the middle fragment carries the brown overlay, not the ground-truth overlay.
  (The shape of the fragments themselves, texts, properties and other children, is as
  the claim says.)
\<close>

theorem scenario_split_misses_document:
  "annotateDocxWithDetections (Suc (Suc 0)) konig doc_konig det_konig = Some doc_konig
   \<and> map_option plist (annotate_struct (Suc (Suc 0)) konig doc_konig det_konig)
     = Some [[mkRun (js ''Dr. '') props_konig, mkRun andreas_konig (exact_props props_konig)]]
   \<and> map (map run_text \<circ> runs_of) doc_konig = [[konig]]
   \<and> annotateDocxWithDetections (Suc (Suc 0)) konig doc_konig_b det_konig = Some doc_konig_b
   \<and> map_option plist (annotate_struct (Suc (Suc 0)) konig doc_konig_b det_konig)
     = Some [[mkRun (js ''Dr. '') props_konig_b, mkRun andreas_konig (brown_props props_konig_b)]]
   \<and> map_of props_konig_b W_B = Some (JStr [])
   \<and> classify Rev1 (Some (JObj props_konig_b)) = Inr False
   \<and> annotateDocxWithDetections (Suc (Suc 0)) (konig @ js '' ok'') doc_konig_ok det_konig
     = Some [RunArray [mkRun (js ''Dr. '') props_konig_b,
                       mkRun andreas_konig (brown_props props_konig_b),
                       plain_run (js '' ok'')]]
   \<and> brown_props props_konig_b \<noteq> exact_props props_konig_b"
  by (simp add: annotate_defs locate_defs flatten_defs splice_defs konig_defs run_text_def)

subsection \<open>Absent values\<close>

text \<open>The value occurs somewhere in the text.\<close>

definition occurs :: "jsstring \<Rightarrow> jsstring \<Rightarrow> bool" where
  "occurs text v \<longleftrightarrow> list_ex (occurs_at text v) [0..<Suc (length text)]"

lemma occurs_iff: "occurs tx v \<longleftrightarrow> (\<exists>k. occurs_at tx v k)"
proof
  assume "occurs tx v"
  then show "\<exists>k. occurs_at tx v k" by (auto simp: occurs_def list_ex_iff)
next
  assume "\<exists>k. occurs_at tx v k"
  then obtain k where k: "occurs_at tx v k" ..
  then have "k \<le> length tx" by (simp add: occurs_at_def)
  then have "k \<in> set [0..<Suc (length tx)]" by auto
  with k show "occurs tx v" unfolding occurs_def list_ex_iff by blast
qed

lemma findAll_absent: "\<not> occurs tx v \<Longrightarrow> findAll tx v = []"
proof (cases "v = []")
  case True
  then show ?thesis by (simp add: findAll_def)
next
  case False
  assume "\<not> occurs tx v"
  then have "indexOf tx v 0 = None" by (simp add: indexOf_None occurs_iff)
  then have "findAll_loop tx v 0 = []" by (subst findAll_loop.simps) simp
  with False show ?thesis by (simp add: findAll_def)
qed

lemma annotate_ranges_absent:
  "findAll xmlText v = [] \<Longrightarrow> annotate_ranges fuel xmlText v idxs st = Some st"
  by (induction idxs) (simp_all add: annotate_range_def)

text \<open>
  C5. A detection whose value does not occur in the flattened text is a silent no-op:
  \<open>annotateDocxWithDetections\<close> leaves the structure exactly as it was for that detection
  and no exception is raised (the loop step ends normally, whatever the fuel). In \<open>Rev1\<close>
  this holds when the value is absent from the extractor's text or from the text of
  \<open>indexRuns\<close>; in \<open>Rev0\<close> when it is absent from the extractor's text, the only one searched.
\<close>

theorem annotate_absent_value_noop:
  "(\<not> occurs fullText v \<or> \<not> occurs xmlText v \<longrightarrow>
      annotate_detection fuel fullText xmlText st v = Some st)
   \<and> (\<not> occurs mammothText v \<longrightarrow>
      annotate_detection0 modifyXmlDirectly mammothText docXml v = docXml)"
proof (intro conjI impI)
  assume "\<not> occurs fullText v \<or> \<not> occurs xmlText v"
  then show "annotate_detection fuel fullText xmlText st v = Some st"
  proof
    assume "\<not> occurs fullText v"
    then show ?thesis by (simp add: annotate_detection_def findAll_absent)
  next
    assume "\<not> occurs xmlText v"
    then have "findAll xmlText v = []" by (rule findAll_absent)
    then show ?thesis by (simp add: annotate_detection_def annotate_ranges_absent Let_def)
  qed
next
  assume "\<not> occurs mammothText v"
  then show "annotate_detection0 modifyXmlDirectly mammothText docXml v = docXml"
    by (simp add: annotate_detection0_def findAll_absent)
qed

lemma zzyzx_absent: "\<not> occurs konig (js ''Zzyzx'')"
  by (simp add: occurs_def occurs_at_def konig_def js_def)

theorem annotate_absent_value_noop_witness:
  "\<not> occurs konig (js ''Zzyzx'')
   \<and> annotate_detection 20 konig konig (indexRuns Rev1 doc_konig) (js ''Zzyzx'')
       = Some (indexRuns Rev1 doc_konig)
   \<and> annotate_detection0 (\<lambda>xml t v. xml @ t) konig (js ''<w:document/>'') (js ''Zzyzx'')
       = js ''<w:document/>''"
  using zzyzx_absent
    annotate_absent_value_noop[of konig "js ''Zzyzx''" konig 20 "indexRuns Rev1 doc_konig" konig
      "\<lambda>xml t v. xml @ t" "js ''<w:document/>''"]
  by simp

subsection \<open>Non-overlapping scan\<close>

text \<open>
  C6. For a non-empty value, \<open>findAll\<close> (and \<open>findAllOccurrences\<close>, the same loop) returns
  half-open ranges \<open>[j, j + len(value))\<close> at which the value occurs, from left to right and
  without overlap: each range ends before the next one starts. The scan resumes at the end
  of each match: every occurrence of the value in the text either is a returned range or
  starts inside a returned range that begins before it, so an occurrence overlapping a
  reported one is not reported, and nothing else is left out.
\<close>

theorem findAll_nonoverlapping_scan:
  assumes "v \<noteq> []"
  shows "(\<forall>(s, e) \<in> set (findAll tx v). e = s + length v \<and> occurs_at tx v s)
       \<and> sorted_wrt (\<lambda>a b. snd a \<le> fst b) (findAll tx v)
       \<and> (\<forall>j. occurs_at tx v j \<longrightarrow> (\<exists>(s, e) \<in> set (findAll tx v). s \<le> j \<and> j < e))
       \<and> findAllOccurrences tx v = findAll tx v"
proof -
  have eq: "findAll tx v = findAll_loop tx v 0" using assms by (simp add: findAll_def)
  from findAll_loop_props[OF assms, of tx 0]
  have "(\<forall>(s, e) \<in> set (findAll_loop tx v 0). e = s + length v \<and> occurs_at tx v s)"
    and "sorted_wrt (\<lambda>a b. snd a \<le> fst b) (findAll_loop tx v 0)"
    and "\<forall>j. occurs_at tx v j \<longrightarrow> (\<exists>(s, e) \<in> set (findAll_loop tx v 0). s \<le> j \<and> j < e)"
    by auto
  moreover have "findAllOccurrences tx v = findAll tx v"
    by (simp add: findAllOccurrences_def findAll_def)
  ultimately show ?thesis unfolding eq by blast
qed

theorem findAll_nonoverlapping_scan_witness:
  "js ''aa'' \<noteq> []
   \<and> findAll (js ''aaaXaa'') (js ''aa'') = [(0, 2), (4, 6)]
   \<and> occurs_at (js ''aaaXaa'') (js ''aa'') 0
   \<and> occurs_at (js ''aaaXaa'') (js ''aa'') 1
   \<and> occurs_at (js ''aaaXaa'') (js ''aa'') 4
   \<and> sorted_wrt (\<lambda>a b. snd a \<le> fst b) (findAll (js ''aaaXaa'') (js ''aa''))
   \<and> (\<exists>(s, e) \<in> set (findAll (js ''aaaXaa'') (js ''aa'')). s \<le> 1 \<and> 1 < e)
   \<and> findAllOccurrences (js ''aaaXaa'') (js ''aa'') = [(0, 2), (4, 6)]"
proof -
  have ne: "js ''aa'' \<noteq> []" by (simp add: js_def)
  have hits: "findAll (js ''aaaXaa'') (js ''aa'') = [(0, 2), (4, 6)]" by code_simp
  have occ: "occurs_at (js ''aaaXaa'') (js ''aa'') 1" by code_simp
  from findAll_nonoverlapping_scan[OF ne, of "js ''aaaXaa''"] ne hits occ
  show ?thesis by auto
qed

subsection \<open>Token boundaries\<close>

lemma isBoundary_undefined: "\<not> isBoundary None"
  by (simp add: isBoundary_def boundary_regex_test_def js_def is_ws_def is_punct_def)

lemma isBoundary_space: "isBoundary (Some (js '' ''))"
  by (simp add: isBoundary_def boundary_regex_test_def js_def is_ws_def)

lemma isBoundary_unit: "isBoundary (Some [c]) = boundary_class c"
  by (simp add: isBoundary_def boundary_regex_test_def boundary_class_def)

text \<open>
  The result for all indices, by the guards of the source: the left side holds at the
  left edge (\<open>start \<le> 0\<close>) or on a character of the boundary class, the right side at the
  right edge (\<open>end \<ge> len(text)\<close>) or on such a character.
\<close>

lemma hasTokenBoundary_guards:
  "hasTokenBoundary fl start stop \<longleftrightarrow>
     (start \<le> 0 \<or> (start \<le> int (length fl) \<and> boundary_class (fl ! nat (start - 1))))
     \<and> (int (length fl) \<le> stop \<or> (0 \<le> stop \<and> boundary_class (fl ! nat stop)))"
proof -
  have L: "isBoundary (if start \<le> 0 then Some (js '' '') else char_at fl (start - 1))
           \<longleftrightarrow> (start \<le> 0 \<or> (start \<le> int (length fl) \<and> boundary_class (fl ! nat (start - 1))))"
    by (auto simp: isBoundary_space isBoundary_undefined isBoundary_unit char_at_def)
  have R: "isBoundary (if stop \<ge> int (length fl) then Some (js '' '') else char_at fl stop)
           \<longleftrightarrow> (int (length fl) \<le> stop \<or> (0 \<le> stop \<and> boundary_class (fl ! nat stop)))"
    by (auto simp: isBoundary_space isBoundary_undefined isBoundary_unit char_at_def)
  show ?thesis unfolding hasTokenBoundary_def Let_def L R ..
qed

text \<open>
  The condition of the specification on the character at an index: it is absent (the
  index is beyond an edge of the string), or it is in the boundary class.
\<close>

definition absent_or_boundary :: "jsstring \<Rightarrow> int \<Rightarrow> bool" where
  "absent_or_boundary fl k =
     (case char_at fl k of None \<Rightarrow> True | Some c \<Rightarrow> list_all boundary_class c)"

text \<open>
  The ranges that \<open>hasTokenBoundary\<close> is called on are those of \<open>findAllOccurrences\<close>: they
  lie inside the text.
\<close>

lemma findAllOccurrences_in_text:
  assumes "(s, e) \<in> set (findAllOccurrences fl v)"
  shows "int s \<le> int (length fl) \<and> 0 \<le> int e"
proof -
  from assms have v: "v \<noteq> []" and m: "(s, e) \<in> set (findAll_loop fl v 0)"
    by (auto simp: findAllOccurrences_def split: if_splits)
  from findAll_loop_props[OF v, of fl 0] m have "occurs_at fl v s" by blast
  with v have "s \<le> length fl" by (cases v) (auto simp: occurs_at_def)
  then show ?thesis by simp
qed

text \<open>
  C7. For a range inside the text (\<open>start \<le> len(text)\<close> and \<open>end \<ge> 0\<close>, as all ranges of
  \<open>findAllOccurrences\<close> are), \<open>hasTokenBoundary(text, start, end)\<close> is true if and only if
  the character immediately before \<open>start\<close> and the character at \<open>end\<close> are each absent
  or in the boundary class: whitespace or one of \<open>. , ; : ! ? ( ) [ ] { } < > $ " ' -\<close>.
  The match of \<open>art\<close> inside \<open>startup\<close>, the range \<open>[2, 5)\<close>, is rejected.
\<close>

theorem hasTokenBoundary_iff:
  assumes "start \<le> int (length fl)" "0 \<le> stop"
  shows "(hasTokenBoundary fl start stop
            \<longleftrightarrow> absent_or_boundary fl (start - 1) \<and> absent_or_boundary fl stop)
         \<and> hasTokenBoundary (js ''startup'') 2 5 = False"
proof -
  have L: "absent_or_boundary fl (start - 1)
           \<longleftrightarrow> (start \<le> 0 \<or> (start \<le> int (length fl) \<and> boundary_class (fl ! nat (start - 1))))"
    using assms(1) by (auto simp: absent_or_boundary_def char_at_def)
  have R: "absent_or_boundary fl stop
           \<longleftrightarrow> (int (length fl) \<le> stop \<or> (0 \<le> stop \<and> boundary_class (fl ! nat stop)))"
    using assms(2) by (auto simp: absent_or_boundary_def char_at_def)
  have "hasTokenBoundary (js ''startup'') 2 5 = False"
    by (simp add: hasTokenBoundary_guards js_def boundary_class_def is_ws_def is_punct_def)
  then show ?thesis unfolding hasTokenBoundary_guards L R by simp
qed

theorem hasTokenBoundary_iff_witness:
  "(2::int) \<le> int (length (js ''startup'')) \<and> (0::int) \<le> 5
   \<and> hasTokenBoundary (js ''startup'') 2 5 = False
   \<and> absent_or_boundary (js ''startup'') (2 - 1) = False
   \<and> hasTokenBoundary (js ''an art.'') 3 6 = True
   \<and> absent_or_boundary (js ''an art.'') (3 - 1) = True
   \<and> absent_or_boundary (js ''an art.'') 6 = True
   \<and> hasTokenBoundary (js ''art'') 0 3 = True
   \<and> absent_or_boundary (js ''art'') (0 - 1) = True
   \<and> absent_or_boundary (js ''art'') 3 = True"
  using hasTokenBoundary_iff[of 2 "js ''startup''" 5]
        hasTokenBoundary_iff[of 3 "js ''an art.''" 6]
        hasTokenBoundary_iff[of 0 "js ''art''" 3]
  by (simp add: absent_or_boundary_def char_at_def js_def boundary_class_def is_ws_def is_punct_def)

subsection \<open>Ground-truth classifier\<close>

text \<open>
  The accepted colours, as the specification words them: the upper-cased value is one of
  three strings.
\<close>

definition to_upper :: "nat \<Rightarrow> nat" where
  "to_upper c = (if 97 \<le> c \<and> c \<le> 122 then c - 32 else c)"

definition red_variants :: "jsstring set" where
  "red_variants = {js ''FF0000'', js ''C00000'', js ''E00000''}"

lemma ci_char_upper:
  "\<not> (97 \<le> pc \<and> pc \<le> 122) \<Longrightarrow> ci_char pc c \<longleftrightarrow> to_upper c = pc"
  unfolding ci_char_def to_upper_def by (cases "97 \<le> c \<and> c \<le> 122") auto

lemma list_all2_ci_char:
  "\<forall>pc \<in> set pat. \<not> (97 \<le> pc \<and> pc \<le> 122) \<Longrightarrow> list_all2 ci_char pat s \<longleftrightarrow> map to_upper s = pat"
proof (induction pat arbitrary: s)
  case Nil
  then show ?case by auto
next
  case (Cons pc pat)
  then show ?case by (cases s) (auto simp: ci_char_upper)
qed

lemma red_regex_test_iff: "red_regex_test s \<longleftrightarrow> map to_upper s \<in> red_variants"
proof -
  have "list_all2 ci_char (js ''FF0000'') s \<longleftrightarrow> map to_upper s = js ''FF0000''"
    by (rule list_all2_ci_char) (simp add: js_def)
  moreover have "list_all2 ci_char (js ''C00000'') s \<longleftrightarrow> map to_upper s = js ''C00000''"
    by (rule list_all2_ci_char) (simp add: js_def)
  moreover have "list_all2 ci_char (js ''E00000'') s \<longleftrightarrow> map to_upper s = js ''E00000''"
    by (rule list_all2_ci_char) (simp add: js_def)
  ultimately show ?thesis by (auto simp: red_regex_test_def red_variants_def)
qed

definition red_value :: "json option \<Rightarrow> bool" where
  "red_value color \<longleftrightarrow>
     (case color of None \<Rightarrow> False
      | Some c \<Rightarrow> truthy (Some c) \<and> map to_upper (to_string c) \<in> red_variants)"

lemma redish_iff: "redish color = red_value color"
  by (simp add: redish_def red_value_def red_regex_test_iff split: option.splits)

text \<open>
  What the classifiers compute, for every value they are given: none of them throws.
  \<open>isBoldRed\<close> tests whether the value under the bold key is truthy, \<open>isRed\<close> does not look
  at the bold key.
\<close>

lemma classifiers_computed:
  "isBoldRed rPr =
     Inr (truthy rPr \<and> truthy (opt_member rPr W_B)
          \<and> red_value (opt_member (opt_member rPr W_COLOR) W_VAL))
   \<and> isRed rPr =
     Inr (truthy rPr \<and> red_value (opt_member (opt_member rPr W_COLOR) W_VAL))"
  by (simp add: isBoldRed_def isRed_def member_truthy redish_iff)

lemma classifiers_absent:
  "isBoldRed None = Inr False \<and> isBoldRed (Some JNull) = Inr False
   \<and> isRed None = Inr False \<and> isRed (Some JNull) = Inr False
   \<and> isBoldRed (Some (JObj [(W_B, JObj [])])) = Inr False
   \<and> isBoldRed (Some (JObj [(W_COLOR, JObj [(W_VAL, JStr (js ''FF0000''))])])) = Inr False
   \<and> isRed (Some (JObj [(W_B, JObj [])])) = Inr False"
  by (simp add: classifiers_computed red_value_def)

text \<open>
  C8 fails on the code, in the part \<open>true exactly when bold is present and the colour is
  an accepted red\<close>. The bold element \<open><w:b/>\<close> comes from the parser as the empty string
  under the key \<open>w:b\<close>; \<open>!!rPr[W.B]\<close> tests the value, and the empty string is falsy. So
  for the properties of a bold red run, \<open>{"w:b": "", "w:color": {"w:val": "FF0000"}}\<close>,
  where the bold key is present and the colour is \<open>FF0000\<close>, \<open>isBoldRed\<close> returns false.
  \<open>isRed\<close>, under the same comment (test original bold + red), has no bold test at all:
  for red properties without the bold key it returns true. (The other part holds: both
  are total, never throw, and return false for absent properties and for properties
  without a colour.)
\<close>

theorem isBoldRed_misses_bold_element:
  "map_of [(W_B, JStr []), (W_COLOR, JObj [(W_VAL, JStr (js ''FF0000''))])] W_B = Some (JStr [])
   \<and> red_value (Some (JStr (js ''FF0000'')))
   \<and> isBoldRed (Some (JObj [(W_B, JStr []), (W_COLOR, JObj [(W_VAL, JStr (js ''FF0000''))])]))
       = Inr False
   \<and> isBoldRed (Some (JObj [(W_B, JObj [(W_VAL, JStr (js ''true''))]),
                             (W_COLOR, JObj [(W_VAL, JStr (js ''FF0000''))])]))
       = Inr True
   \<and> map_of [(W_COLOR, JObj [(W_VAL, JStr (js ''FF0000''))])] W_B = None
   \<and> isRed (Some (JObj [(W_COLOR, JObj [(W_VAL, JStr (js ''FF0000''))])])) = Inr True"
  by (simp add: isBoldRed_def isRed_def redish_def red_regex_test_def ci_char_def
      red_value_def red_variants_def to_upper_def js_def)

subsection \<open>Overlays\<close>

lemma map_of_exact_props:
  "map_of (exact_props m) =
     (map_of m)(W_I \<mapsto> JObj [],
                W_U \<mapsto> JObj [(W_VAL, JStr (js ''single''))],
                W_COLOR \<mapsto> JObj [(W_VAL, JStr (js ''FF0000''))])"
  by (simp add: exact_props_def update_conv')

lemma map_of_brown_props:
  "map_of (brown_props m) =
     (map_of m)(W_U \<mapsto> JObj [(W_VAL, JStr (js ''single''))],
                W_COLOR \<mapsto> JObj [(W_VAL, JStr (js ''7B3F00''))])"
  by (simp add: brown_props_def update_conv')

lemma exact_props_idem: "exact_props (exact_props m) = exact_props m"
proof -
  let ?X = "exact_props m"
  have 1: "AList.update W_I (JObj []) ?X = ?X"
    by (rule update_triv) (simp add: map_of_exact_props)
  have 2: "AList.update W_U (JObj [(W_VAL, JStr (js ''single''))]) ?X = ?X"
    by (rule update_triv) (simp add: map_of_exact_props)
  have 3: "AList.update W_COLOR (JObj [(W_VAL, JStr (js ''FF0000''))]) ?X = ?X"
    by (rule update_triv) (simp add: map_of_exact_props)
  show ?thesis by (subst exact_props_def) (simp only: 1 2 3)
qed

lemma brown_props_idem: "brown_props (brown_props m) = brown_props m"
proof -
  let ?X = "brown_props m"
  have 2: "AList.update W_U (JObj [(W_VAL, JStr (js ''single''))]) ?X = ?X"
    by (rule update_triv) (simp add: map_of_brown_props)
  have 3: "AList.update W_COLOR (JObj [(W_VAL, JStr (js ''7B3F00''))]) ?X = ?X"
    by (rule update_triv) (simp add: map_of_brown_props)
  show ?thesis by (subst brown_props_def) (simp only: 2 3)
qed

text \<open>
  C9 (as amended). \<open>overlayExact\<close> and \<open>overlayBrown\<close> work in place: given a mapping they
  return that same mapping (the same reference), updated, and allocate a new one only for a
  \<open>null\<close>/\<open>undefined\<close> argument. In the result exactly the overlay keys are forced to fixed
  values (italic, underline and colour for \<open>overlayExact\<close>; underline and colour for
  \<open>overlayBrown\<close>) and every other key keeps its value. Each overlay is idempotent, on the
  mapping and on the store.
\<close>

theorem overlays_update_in_place:
  "fst (overlayExact h (Some a) gt) = a
   \<and> fst (overlayBrown h (Some a)) = a
   \<and> snd (overlayExact h (Some a) gt) = h[a := exact_props (h ! a)]
   \<and> snd (overlayBrown h (Some a)) = h[a := brown_props (h ! a)]
   \<and> overlayExact h None gt = (length h, h @ [exact_props []])
   \<and> overlayBrown h None = (length h, h @ [brown_props []])
   \<and> map_of (exact_props m) =
       (map_of m)(W_I \<mapsto> JObj [],
                  W_U \<mapsto> JObj [(W_VAL, JStr (js ''single''))],
                  W_COLOR \<mapsto> JObj [(W_VAL, JStr (js ''FF0000''))])
   \<and> map_of (brown_props m) =
       (map_of m)(W_U \<mapsto> JObj [(W_VAL, JStr (js ''single''))],
                  W_COLOR \<mapsto> JObj [(W_VAL, JStr (js ''7B3F00''))])
   \<and> exact_props (exact_props m) = exact_props m
   \<and> brown_props (brown_props m) = brown_props m
   \<and> overlayExact (snd (overlayExact h (Some a) gt)) (Some a) gt = overlayExact h (Some a) gt
   \<and> overlayBrown (snd (overlayBrown h (Some a))) (Some a) = overlayBrown h (Some a)"
proof -
  have E: "overlayExact h (Some a) gt = (a, h[a := exact_props (h ! a)])" for h
    by (simp add: overlayExact_def)
  have B: "overlayBrown h (Some a) = (a, h[a := brown_props (h ! a)])" for h
    by (simp add: overlayBrown_def)
  have EN: "overlayExact h None gt = (length h, h @ [exact_props []])"
    by (simp add: overlayExact_def)
  have BN: "overlayBrown h None = (length h, h @ [brown_props []])"
    by (simp add: overlayBrown_def)
  have EE: "overlayExact (snd (overlayExact h (Some a) gt)) (Some a) gt = overlayExact h (Some a) gt"
    by (cases "a < length h") (simp_all add: E exact_props_idem list_update_beyond)
  have BB: "overlayBrown (snd (overlayBrown h (Some a))) (Some a) = overlayBrown h (Some a)"
    by (cases "a < length h") (simp_all add: B brown_props_idem list_update_beyond)
  show ?thesis
    using E[of h] B[of h] EN BN EE BB map_of_exact_props[of m] map_of_brown_props[of m]
      exact_props_idem[of m] brown_props_idem[of m]
    by simp
qed

theorem overlays_update_in_place_witness:
  "overlayExact [[(W_B, JBool True), (W_COLOR, JObj [(W_VAL, JStr (js ''000000''))])]] (Some 0) True
     = (0, [[(W_B, JBool True), (W_COLOR, JObj [(W_VAL, JStr (js ''FF0000''))]),
             (W_I, JObj []), (W_U, JObj [(W_VAL, JStr (js ''single''))])]])
   \<and> overlayBrown [[(W_B, JBool True)]] None
     = (1, [[(W_B, JBool True)],
            [(W_U, JObj [(W_VAL, JStr (js ''single''))]),
             (W_COLOR, JObj [(W_VAL, JStr (js ''7B3F00''))])]])
   \<and> map_of (exact_props [(W_B, JBool True)]) W_B = Some (JBool True)
   \<and> exact_props (exact_props [(W_B, JBool True)]) = exact_props [(W_B, JBool True)]"
  using overlays_update_in_place[of "[[(W_B, JBool True), (W_COLOR, JObj [(W_VAL, JStr (js ''000000''))])]]" 0 True "[(W_B, JBool True)]"]
    overlays_update_in_place[of "[[(W_B, JBool True)]]" 0 True "[(W_B, JBool True)]"]
  by (simp add: exact_props_def brown_props_def prod_eq_iff)

text \<open>
  C9 as stated fails: the overlays are not pure. The mapping returned is the argument
  itself (the same address), and the argument has been modified.
\<close>

theorem overlay_mutates_input_counterexample:
  "fst (overlayExact [[(W_B, JBool True)]] (Some 0) True) = 0
   \<and> snd (overlayExact [[(W_B, JBool True)]] (Some 0) True) ! 0 \<noteq> [[(W_B, JBool True)]] ! 0
   \<and> fst (overlayBrown [[(W_B, JBool True)]] (Some 0)) = 0
   \<and> snd (overlayBrown [[(W_B, JBool True)]] (Some 0)) ! 0 \<noteq> [[(W_B, JBool True)]] ! 0"
  by (simp add: overlayExact_def overlayBrown_def exact_props_def brown_props_def)

subsection \<open>Invalid ranges\<close>

text \<open>
  C10. For a range that violates \<open>0 \<le> start < end \<le> map.length\<close> (a negative start, an
  end not after the start, or an end beyond the map), \<open>applyStyleToRange\<close> returns at once:
  it ends normally, and the runs, the position map and the flattened text are what they
  were.
\<close>

theorem applyStyleToRange_invalid_range:
  assumes "start < 0 \<or> stop \<le> start \<or> stop > int (length (posmap st))"
  shows "applyStyleToRange fuel rv st start stop sty = Some (Returned, st)"
  using assms by (simp add: applyStyleToRange_def)

theorem applyStyleToRange_invalid_range_witness:
  "applyStyleToRange 5 Rev1 (indexRuns Rev1 doc_ab) (- 1) 1 (\<lambda>m gt. brown_props m)
     = Some (Returned, indexRuns Rev1 doc_ab)
   \<and> applyStyleToRange 5 Rev1 (indexRuns Rev1 doc_ab) 1 1 (\<lambda>m gt. brown_props m)
     = Some (Returned, indexRuns Rev1 doc_ab)
   \<and> applyStyleToRange 5 Rev0 (indexRuns Rev0 doc_ab) 0 3 (\<lambda>m gt. brown_props m)
     = Some (Returned, indexRuns Rev0 doc_ab)"
  using applyStyleToRange_invalid_range[of "- 1" 1 "indexRuns Rev1 doc_ab" 5 Rev1 "\<lambda>m gt. brown_props m"]
    applyStyleToRange_invalid_range[of 1 1 "indexRuns Rev1 doc_ab" 5 Rev1 "\<lambda>m gt. brown_props m"]
    applyStyleToRange_invalid_range[of 0 3 "indexRuns Rev0 doc_ab" 5 Rev0 "\<lambda>m gt. brown_props m"]
  by (simp add: struct_ab)

end
